theory Spec2Isabelle
  imports Main "HOL-Library.Multiset"
begin

section \<open>ExpiringMap: a map whose entries expire\<close>

text \<open>
  A shallow embedding of \<^verbatim>\<open>pj4dev::ExpiringMap<K, V>\<close> (src/ExpiringMap.h).

  \<^item> \<^verbatim>\<open>long\<close> is modelled as \<open>int\<close>: timestamps are milliseconds since the epoch and
    signed overflow (undefined in C++) is outside the model. \<^verbatim>\<open>unsigned\<close> is 32 bits
    wide, \<^verbatim>\<open>long\<close> 64 bits (LP64; a 32-bit \<^verbatim>\<open>long\<close> cannot hold the clock).
  \<^item> \<^verbatim>\<open>current_time()\<close> is the parameter \<open>now\<close> of every operation: one clock reading
    for the whole call.
  \<^item> Every \<^verbatim>\<open>std::make_shared<Item>\<close> makes a new object with its control block. The
    objects are kept in allocation order in the list \<open>objects\<close>; the position in it is
    the identity that a \<^verbatim>\<open>shared_ptr\<close> and a \<^verbatim>\<open>weak_ptr\<close> hold. \<open>use_count\<close> is the
    number of \<^verbatim>\<open>shared_ptr\<close>s that own the object; at zero the object is destroyed and
    \<^verbatim>\<open>weak_ptr::lock()\<close> gives the null pointer. An \<^verbatim>\<open>Item\<close> has no setter, so its
    fields never change.
  \<^item> Dereferencing a null \<^verbatim>\<open>shared_ptr\<close> is undefined behaviour; the model makes it the
    error value \<open>NullDeref\<close>.
\<close>

subsection \<open>Data\<close>

datatype error = NullDeref

record ('k, 'v) Item =
  getKey :: 'k
  getValue :: 'v
  getExpire :: int

text \<open>
  \<^verbatim>\<open>internal_map_\<close> (here \<open>internal_map\<close>) is a \<^verbatim>\<open>std::map<K, std::shared_ptr<Item>>\<close>: an association list
  in ascending key order with one pair per key. \<^verbatim>\<open>expired_queue_\<close> is a
  \<^verbatim>\<open>std::priority_queue\<close> of \<^verbatim>\<open>weak_ptr\<close>s over a \<^verbatim>\<open>std::vector\<close>: the vector, kept
  as a binary heap.
\<close>

record ('k, 'v) ExpiringMap =
  objects :: "('k, 'v) Item list"
  use_count :: "nat \<Rightarrow> nat"
  internal_map :: "('k \<times> nat) list"
  expired_queue :: "nat list"

definition ExpiringMap_init :: "('k, 'v) ExpiringMap" where
  "ExpiringMap_init =
     \<lparr>objects = [], use_count = (\<lambda>_. 0), internal_map = [], expired_queue = []\<rparr>"

text \<open>\<^verbatim>\<open>V{}\<close> is the class constant \<open>default\<close>; for \<^verbatim>\<open>int\<close> it is zero.\<close>

instantiation int :: default
begin

definition default_int :: int where
  "default_int = 0"

instance ..

end

subsection \<open>Smart pointers\<close>

definition lock :: "('k, 'v) ExpiringMap \<Rightarrow> nat \<Rightarrow> ('k, 'v) Item option" where
  "lock s w =
     (if w < length (objects s) \<and> 0 < use_count s w then Some (objects s ! w) else None)"

text \<open>Copying a \<^verbatim>\<open>shared_ptr\<close> and destroying one.\<close>

definition acquire :: "nat \<Rightarrow> ('k, 'v) ExpiringMap \<Rightarrow> ('k, 'v) ExpiringMap" where
  "acquire i s = s\<lparr>use_count := (use_count s)(i := use_count s i + 1)\<rparr>"

definition release :: "nat \<Rightarrow> ('k, 'v) ExpiringMap \<Rightarrow> ('k, 'v) ExpiringMap" where
  "release i s = s\<lparr>use_count := (use_count s)(i := use_count s i - 1)\<rparr>"

text \<open>\<^verbatim>\<open>ItemCompare::operator()\<close>: both weak pointers are locked and dereferenced.\<close>

definition ItemCompare :: "('k, 'v) ExpiringMap \<Rightarrow> nat \<Rightarrow> nat \<Rightarrow> error + bool" where
  "ItemCompare s lhs rhs =
     (case lock s lhs of
        None \<Rightarrow> Inl NullDeref
      | Some l \<Rightarrow>
          (case lock s rhs of
             None \<Rightarrow> Inl NullDeref
           | Some r \<Rightarrow> Inr (getExpire l > getExpire r)))"

subsection \<open>The priority queue\<close>

text \<open>
  \<^verbatim>\<open>std::priority_queue\<close> is specified by the C++ standard in terms of the heap
  algorithms: \<^verbatim>\<open>push(x)\<close> is \<^verbatim>\<open>c.push_back(x); push_heap(c.begin(), c.end(), comp)\<close>,
  \<^verbatim>\<open>pop()\<close> is \<^verbatim>\<open>pop_heap(c.begin(), c.end(), comp); c.pop_back()\<close> and \<^verbatim>\<open>top()\<close> is
  \<^verbatim>\<open>c.front()\<close>. The heap algorithms are those of GNU libstdc++ (bits/stl_heap.h):
  \<^verbatim>\<open>__push_heap\<close> moves a hole towards the root, \<^verbatim>\<open>__adjust_heap\<close> moves the hole
  down to a leaf along the preferred children and then pushes the value up from there.
\<close>

function push_heap_aux ::
  "('k, 'v) ExpiringMap \<Rightarrow> nat list \<Rightarrow> nat \<Rightarrow> nat \<Rightarrow> nat \<Rightarrow> error + nat list" where
  "push_heap_aux s xs holeIndex topIndex val =
     (if holeIndex > topIndex then
        (case ItemCompare s (xs ! ((holeIndex - 1) div 2)) val of
           Inl e \<Rightarrow> Inl e
         | Inr c \<Rightarrow>
             if c then push_heap_aux s (xs[holeIndex := xs ! ((holeIndex - 1) div 2)])
                        ((holeIndex - 1) div 2) topIndex val
             else Inr (xs[holeIndex := val]))
      else Inr (xs[holeIndex := val]))"
  by pat_completeness auto
termination
  by (relation "measure (\<lambda>(s, xs, holeIndex, topIndex, val). holeIndex)") auto

declare push_heap_aux.simps [simp del]

definition push_heap :: "('k, 'v) ExpiringMap \<Rightarrow> nat list \<Rightarrow> error + nat list" where
  "push_heap s xs = push_heap_aux s xs (length xs - 1) 0 (xs ! (length xs - 1))"

text \<open>
  The first loop of \<^verbatim>\<open>__adjust_heap\<close>; \<^verbatim>\<open>holeIndex\<close> and \<^verbatim>\<open>secondChild\<close> are equal
  whenever its condition is tested, so the model has one index. It gives back the vector
  and the index reached.
\<close>

function adjust_heap_loop ::
  "('k, 'v) ExpiringMap \<Rightarrow> nat list \<Rightarrow> nat \<Rightarrow> nat \<Rightarrow> error + (nat list \<times> nat)" where
  "adjust_heap_loop s xs holeIndex len =
     (if holeIndex < (len - 1) div 2 then
        (case ItemCompare s (xs ! (2 * (holeIndex + 1))) (xs ! (2 * (holeIndex + 1) - 1)) of
           Inl e \<Rightarrow> Inl e
         | Inr c \<Rightarrow>
             adjust_heap_loop s
               (xs[holeIndex := xs ! (if c then 2 * (holeIndex + 1) - 1 else 2 * (holeIndex + 1))])
               (if c then 2 * (holeIndex + 1) - 1 else 2 * (holeIndex + 1)) len)
      else Inr (xs, holeIndex))"
  by pat_completeness auto
termination
  by (relation "measure (\<lambda>(s, xs, holeIndex, len). len - holeIndex)") auto

declare adjust_heap_loop.simps [simp del]

text \<open>
  \<^verbatim>\<open>__adjust_heap(first, holeIndex, len, value, comp)\<close>. The test
  \<^verbatim>\<open>(len & 1) == 0 && secondChild == (len - 2) / 2\<close> is on signed numbers; \<open>2 \<le> len\<close>
  keeps the subtraction on \<open>nat\<close> exact.
\<close>

definition adjust_heap ::
  "('k, 'v) ExpiringMap \<Rightarrow> nat list \<Rightarrow> nat \<Rightarrow> nat \<Rightarrow> nat \<Rightarrow> error + nat list" where
  "adjust_heap s xs holeIndex len val =
     (case adjust_heap_loop s xs holeIndex len of
        Inl e \<Rightarrow> Inl e
      | Inr (ys, secondChild) \<Rightarrow>
          if even len \<and> 2 \<le> len \<and> secondChild = (len - 2) div 2
          then push_heap_aux s (ys[secondChild := ys ! (2 * (secondChild + 1) - 1)])
                 (2 * (secondChild + 1) - 1) holeIndex val
          else push_heap_aux s ys secondChild holeIndex val)"

text \<open>\<^verbatim>\<open>std::pop_heap\<close>: nothing to do on fewer than two elements.\<close>

definition pop_heap :: "('k, 'v) ExpiringMap \<Rightarrow> nat list \<Rightarrow> error + nat list" where
  "pop_heap s xs =
     (if length xs > 1
      then adjust_heap s (xs[length xs - 1 := xs ! 0]) 0 (length xs - 1) (xs ! (length xs - 1))
      else Inr xs)"

definition queue_push ::
  "nat \<Rightarrow> ('k, 'v) ExpiringMap \<Rightarrow> error + ('k, 'v) ExpiringMap" where
  "queue_push w s =
     (case push_heap s (expired_queue s @ [w]) of
        Inl e \<Rightarrow> Inl e
      | Inr q \<Rightarrow> Inr (s\<lparr>expired_queue := q\<rparr>))"

definition queue_pop :: "('k, 'v) ExpiringMap \<Rightarrow> error + ('k, 'v) ExpiringMap" where
  "queue_pop s =
     (case pop_heap s (expired_queue s) of
        Inl e \<Rightarrow> Inl e
      | Inr q \<Rightarrow> Inr (s\<lparr>expired_queue := butlast q\<rparr>))"

subsection \<open>The map\<close>

text \<open>
  \<^verbatim>\<open>internal_map_.erase\<close>, by key or at the iterator that \<^verbatim>\<open>find\<close> gave: the pair
  goes and its \<^verbatim>\<open>shared_ptr\<close> is destroyed. \<^verbatim>\<open>emplace\<close> inserts where the key is new
  and stores a copy of the \<^verbatim>\<open>shared_ptr\<close>.
\<close>

definition map_erase :: "'k \<Rightarrow> ('k, 'v) ExpiringMap \<Rightarrow> ('k, 'v) ExpiringMap" where
  "map_erase key s =
     (case map_of (internal_map s) key of
        None \<Rightarrow> s
      | Some i \<Rightarrow> release i (s\<lparr>internal_map := filter (\<lambda>p. fst p \<noteq> key) (internal_map s)\<rparr>))"

definition map_emplace ::
  "'k::linorder \<Rightarrow> nat \<Rightarrow> ('k, 'v) ExpiringMap \<Rightarrow> ('k, 'v) ExpiringMap" where
  "map_emplace key i s =
     (case map_of (internal_map s) key of
        Some j \<Rightarrow> s
      | None \<Rightarrow> acquire i (s\<lparr>internal_map := insort_key fst (key, i) (internal_map s)\<rparr>))"

subsection \<open>The operations\<close>

datatype 'a loop = Break 'a | Continue 'a

text \<open>
  One run of the body of the loop of \<^verbatim>\<open>clearExpired\<close>, entered with a queue that is
  not empty. The \<^verbatim>\<open>shared_ptr top\<close> (here \<open>item\<close>) lives until the end of the \<^verbatim>\<open>if\<close>, before the
  \<^verbatim>\<open>pop\<close>, so the key it hands to \<^verbatim>\<open>erase\<close> stays readable and the count it adds is
  gone again when the queue is popped.
\<close>

definition clearExpired_body ::
  "('k, 'v) ExpiringMap \<Rightarrow> int \<Rightarrow> error + ('k, 'v) ExpiringMap loop" where
  "clearExpired_body s now =
     (case lock s (hd (expired_queue s)) of
        Some item \<Rightarrow>
          if getExpire item > now then Inr (Break s)
          else (case queue_pop (map_erase (getKey item) s) of
                  Inl e \<Rightarrow> Inl e
                | Inr s' \<Rightarrow> Inr (Continue s'))
      | None \<Rightarrow>
          (case queue_pop s of
             Inl e \<Rightarrow> Inl e
           | Inr s' \<Rightarrow> Inr (Continue s')))"

text \<open>
  The two loops of the class pop the queue until they are left; they end because every
  \<^verbatim>\<open>pop\<close> makes the queue shorter.
\<close>

lemma length_push_heap_aux:
  "push_heap_aux s xs h t v = Inr ys \<Longrightarrow> length ys = length xs"
proof (induction s xs h t v rule: push_heap_aux.induct)
  case (1 s xs h t v)
  then show ?case
    using push_heap_aux.simps [of s xs h t v] by (auto split: if_splits sum.splits)
qed

lemma length_adjust_heap_loop:
  "adjust_heap_loop s xs h len = Inr (ys, j) \<Longrightarrow> length ys = length xs"
proof (induction s xs h len rule: adjust_heap_loop.induct)
  case (1 s xs h len)
  then show ?case
    using adjust_heap_loop.simps [of s xs h len] by (auto split: if_splits sum.splits)
qed

lemma length_pop_heap: "pop_heap s xs = Inr ys \<Longrightarrow> length ys = length xs"
  by (auto simp: pop_heap_def adjust_heap_def split: if_splits sum.splits prod.splits
      dest!: length_push_heap_aux length_adjust_heap_loop)

lemma length_queue_pop:
  "queue_pop s = Inr s' \<Longrightarrow> length (expired_queue s') = length (expired_queue s) - 1"
  by (auto simp: queue_pop_def split: sum.splits dest: length_pop_heap)

lemma clearExpired_body_shrinks:
  "clearExpired_body s now = Inr (Continue s') \<Longrightarrow>
   length (expired_queue s') = length (expired_queue s) - 1"
  by (auto simp: clearExpired_body_def map_erase_def release_def
      split: option.splits if_splits sum.splits dest!: length_queue_pop)

function clearExpired ::
  "('k, 'v) ExpiringMap \<Rightarrow> int \<Rightarrow> error + ('k, 'v) ExpiringMap" where
  "clearExpired s now =
     (if expired_queue s = [] then Inr s
      else (case clearExpired_body s now of
              Inl e \<Rightarrow> Inl e
            | Inr (Break s') \<Rightarrow> Inr s'
            | Inr (Continue s') \<Rightarrow> clearExpired s' now))"
  by pat_completeness auto
termination
proof (relation "measure (\<lambda>(s, now). length (expired_queue s))")
  show "wf (measure (\<lambda>(s, now). length (expired_queue s)))"
    by simp
next
  fix s :: "('k, 'v) ExpiringMap" and now r s'
  assume "expired_queue s \<noteq> []" and "clearExpired_body s now = Inr r" and "r = Continue s'"
  then show "((s', now), (s, now)) \<in> measure (\<lambda>(s, now). length (expired_queue s))"
    using clearExpired_body_shrinks [of s now s'] by (cases "expired_queue s") auto
qed

declare clearExpired.simps [simp del]

text \<open>
  The same loop with a bound on the number of times its body may run: \<open>None\<close> when the
  bound is used up before the loop is left.
\<close>

fun clearExpired_fuel ::
  "nat \<Rightarrow> ('k, 'v) ExpiringMap \<Rightarrow> int \<Rightarrow> (error + ('k, 'v) ExpiringMap) option" where
  "clearExpired_fuel 0 s now = (if expired_queue s = [] then Some (Inr s) else None)"
| "clearExpired_fuel (Suc n) s now =
     (if expired_queue s = [] then Some (Inr s)
      else (case clearExpired_body s now of
              Inl e \<Rightarrow> Some (Inl e)
            | Inr (Break s') \<Rightarrow> Some (Inr s')
            | Inr (Continue s') \<Rightarrow> clearExpired_fuel n s' now))"

text \<open>
  \<^verbatim>\<open>put\<close>. The local \<^verbatim>\<open>item\<close> owns the new object until the function returns. Two
  idealisations, as said at the head of the file: the sum \<^verbatim>\<open>current_time() + ms\<close> of two
  \<^verbatim>\<open>long\<close>s is the sum in \<open>int\<close>, which cannot overflow; and the one clock reading \<open>now\<close>
  stands both for the reading that the sum is made from and for the readings that each
  run of the loop of \<^verbatim>\<open>clearExpired\<close> makes.
\<close>

definition put ::
  "('k::linorder, 'v) ExpiringMap \<Rightarrow> 'k \<Rightarrow> 'v \<Rightarrow> int \<Rightarrow> int \<Rightarrow> error + ('k, 'v) ExpiringMap" where
  "put s key val ms now =
     (let expired_time = now + ms;
          item = length (objects s);
          s1 = s\<lparr>objects := objects s @ [\<lparr>getKey = key, getValue = val, getExpire = expired_time\<rparr>],
                 use_count := (use_count s)(item := 1)\<rparr>;
          s2 = map_erase key s1;
          s3 = map_emplace key item s2
      in case queue_push item s3 of
           Inl e \<Rightarrow> Inl e
         | Inr s4 \<Rightarrow>
             (case clearExpired s4 now of
                Inl e \<Rightarrow> Inl e
              | Inr s5 \<Rightarrow> Inr (release item s5)))"

text \<open>
  \<^verbatim>\<open>get\<close>, \<^verbatim>\<open>left\<close> and \<^verbatim>\<open>keys\<close> are \<^verbatim>\<open>const\<close>, but the members are
  \<^verbatim>\<open>mutable\<close>: they give back the state with the result. \<open>V{}\<close> is \<open>default\<close>.
\<close>

definition get :: "('k, 'v::default) ExpiringMap \<Rightarrow> 'k \<Rightarrow> int \<Rightarrow> 'v \<times> ('k, 'v) ExpiringMap" where
  "get s key now =
     (case map_of (internal_map s) key of
        None \<Rightarrow> (default, s)
      | Some i \<Rightarrow>
          if getExpire (objects s ! i) > now then (getValue (objects s ! i), s)
          else (default, s))"

text \<open>
  \<^verbatim>\<open>left\<close>. The local is declared \<^verbatim>\<open>auto expired_time = 0U\<close>, an \<^verbatim>\<open>unsigned int\<close>:
  the difference of the two \<^verbatim>\<open>long\<close>s is reduced modulo \<open>2 ^ 32\<close> when it is stored,
  and that value is returned as a \<^verbatim>\<open>long\<close>.
\<close>

definition left :: "('k, 'v) ExpiringMap \<Rightarrow> 'k \<Rightarrow> int \<Rightarrow> int \<times> ('k, 'v) ExpiringMap" where
  "left s key now =
     (case map_of (internal_map s) key of
        None \<Rightarrow> (0, s)
      | Some i \<Rightarrow> ((getExpire (objects s ! i) - now) mod 2 ^ 32, s))"

text \<open>
  The comparison that \<^verbatim>\<open>keys\<close> hands to \<^verbatim>\<open>std::sort\<close>. \<^verbatim>\<open>internal_map_[a]\<close> on a key
  that is not in the map would insert a null pointer, which is then dereferenced.
\<close>

definition keys_less :: "('k::linorder, 'v) ExpiringMap \<Rightarrow> 'k \<Rightarrow> 'k \<Rightarrow> error + bool" where
  "keys_less s a b =
     (case map_of (internal_map s) a of
        None \<Rightarrow> Inl NullDeref
      | Some i \<Rightarrow>
          (case map_of (internal_map s) b of
             None \<Rightarrow> Inl NullDeref
           | Some j \<Rightarrow>
               Inr (if getExpire (objects s ! i) \<noteq> getExpire (objects s ! j)
                    then getExpire (objects s ! i) < getExpire (objects s ! j)
                    else a < b)))"

text \<open>
  \<^verbatim>\<open>std::sort\<close> as insertion sort. On the keys of a map the comparison above is a strict
  total order, so every sorting algorithm gives the same vector.
\<close>

fun sort_insert :: "('a \<Rightarrow> 'a \<Rightarrow> error + bool) \<Rightarrow> 'a \<Rightarrow> 'a list \<Rightarrow> error + 'a list" where
  "sort_insert lt x [] = Inr [x]"
| "sort_insert lt x (y # ys) =
     (case lt x y of
        Inl e \<Rightarrow> Inl e
      | Inr c \<Rightarrow>
          if c then Inr (x # y # ys)
          else (case sort_insert lt x ys of
                  Inl e \<Rightarrow> Inl e
                | Inr zs \<Rightarrow> Inr (y # zs)))"

fun std_sort :: "('a \<Rightarrow> 'a \<Rightarrow> error + bool) \<Rightarrow> 'a list \<Rightarrow> error + 'a list" where
  "std_sort lt [] = Inr []"
| "std_sort lt (x # xs) =
     (case std_sort lt xs of
        Inl e \<Rightarrow> Inl e
      | Inr ys \<Rightarrow> sort_insert lt x ys)"

definition keys ::
  "('k::linorder, 'v) ExpiringMap \<Rightarrow> int \<Rightarrow> error + ('k list \<times> ('k, 'v) ExpiringMap)" where
  "keys s curtime =
     (case std_sort (keys_less s)
             (map fst (filter (\<lambda>a. getExpire (objects s ! snd a) > curtime) (internal_map s))) of
        Inl e \<Rightarrow> Inl e
      | Inr ks \<Rightarrow> Inr (ks, s))"

definition erase :: "('k, 'v) ExpiringMap \<Rightarrow> 'k \<Rightarrow> ('k, 'v) ExpiringMap" where
  "erase s key = map_erase key s"

text \<open>\<^verbatim>\<open>clear\<close>: the queue is popped until it is empty, then the map is cleared.\<close>

function clear_queue :: "('k, 'v) ExpiringMap \<Rightarrow> error + ('k, 'v) ExpiringMap" where
  "clear_queue s =
     (if expired_queue s = [] then Inr s
      else (case queue_pop s of
              Inl e \<Rightarrow> Inl e
            | Inr s' \<Rightarrow> clear_queue s'))"
  by pat_completeness auto
termination
proof (relation "measure (\<lambda>s. length (expired_queue s))")
  show "wf (measure (\<lambda>s. length (expired_queue s)))"
    by simp
next
  fix s s' :: "('k, 'v) ExpiringMap"
  assume "expired_queue s \<noteq> []" and "queue_pop s = Inr s'"
  then show "(s', s) \<in> measure (\<lambda>s. length (expired_queue s))"
    using length_queue_pop [of s s'] by (cases "expired_queue s") auto
qed

declare clear_queue.simps [simp del]

definition map_clear :: "('k, 'v) ExpiringMap \<Rightarrow> ('k, 'v) ExpiringMap" where
  "map_clear s = (fold (\<lambda>p. release (snd p)) (internal_map s) s)\<lparr>internal_map := []\<rparr>"

definition clear :: "('k, 'v) ExpiringMap \<Rightarrow> error + ('k, 'v) ExpiringMap" where
  "clear s =
     (case clear_queue s of
        Inl e \<Rightarrow> Inl e
      | Inr s' \<Rightarrow> Inr (map_clear s'))"

text \<open>\<^verbatim>\<open>size\<close>, here \<open>size_op\<close>: \<open>size\<close> is a constant of HOL.\<close>

definition size_op :: "('k, 'v) ExpiringMap \<Rightarrow> int \<Rightarrow> error + (nat \<times> ('k, 'v) ExpiringMap)" where
  "size_op s now =
     (case clearExpired s now of
        Inl e \<Rightarrow> Inl e
      | Inr s' \<Rightarrow> Inr (length (internal_map s'), s'))"

section \<open>Notions for the properties\<close>

subsection \<open>The order of the queue\<close>

text \<open>
  The expiry time of the object a reference was made for. The proofs read it after the
  object is destroyed, which the program cannot do.
\<close>

definition expire_at :: "('k, 'v) ExpiringMap \<Rightarrow> nat \<Rightarrow> int" where
  "expire_at s w = getExpire (objects s ! w)"

text \<open>
  The first \<open>len\<close> positions of a vector are a binary heap when no position has an
  earlier time than its parent \<open>(i - 1) div 2\<close>: the order \<^verbatim>\<open>ItemCompare\<close> asks for, with
  the earliest time in front.
\<close>

definition heap_upto :: "(nat \<Rightarrow> int) \<Rightarrow> nat \<Rightarrow> nat list \<Rightarrow> bool" where
  "heap_upto E len xs \<longleftrightarrow> (\<forall>i. 0 < i \<and> i < len \<longrightarrow> E (xs ! ((i - 1) div 2)) \<le> E (xs ! i))"

text \<open>
  What holds while a hole travels through the heap. \<open>hole_down\<close>: the order holds between
  all positions but the hole, and the children of the hole are no earlier than its parent.
  \<open>hole_up\<close>: moreover the value to be stored is no later than the children of the hole.
\<close>

definition hole_down :: "(nat \<Rightarrow> int) \<Rightarrow> nat \<Rightarrow> nat list \<Rightarrow> nat \<Rightarrow> bool" where
  "hole_down E len xs h \<longleftrightarrow>
     h < len \<and>
     (\<forall>i. 0 < i \<and> i < len \<and> i \<noteq> h \<and> (i - 1) div 2 \<noteq> h \<longrightarrow> E (xs ! ((i - 1) div 2)) \<le> E (xs ! i)) \<and>
     (\<forall>c. 0 < c \<and> c < len \<and> (c - 1) div 2 = h \<and> 0 < h \<longrightarrow> E (xs ! ((h - 1) div 2)) \<le> E (xs ! c))"

definition hole_up :: "(nat \<Rightarrow> int) \<Rightarrow> nat \<Rightarrow> nat list \<Rightarrow> nat \<Rightarrow> nat \<Rightarrow> bool" where
  "hole_up E len xs h v \<longleftrightarrow>
     hole_down E len xs h \<and> (\<forall>c. 0 < c \<and> c < len \<and> (c - 1) div 2 = h \<longrightarrow> E v \<le> E (xs ! c))"

subsection \<open>Ownership\<close>

text \<open>
  The owners an object should have: the map, when the pair of its key points to it, and
  the local \<^verbatim>\<open>item\<close> of a \<^verbatim>\<open>put\<close> in progress (\<open>p\<close>, \<open>None\<close> between two calls).
\<close>

definition owners :: "nat option \<Rightarrow> ('k, 'v) ExpiringMap \<Rightarrow> nat \<Rightarrow> nat" where
  "owners p s i =
     (if i < length (objects s) \<and> (getKey (objects s ! i), i) \<in> set (internal_map s) then 1 else 0) +
     (if p = Some i then 1 else 0)"

text \<open>
  The invariant of the container, \<open>consistent\<close>: the keys of the map are distinct; a pair of the map
  points to an object with that key; the use counts are the owners; the queue holds each
  reference once, only references to objects that were made, and is a heap.
\<close>

definition consistent :: "nat option \<Rightarrow> ('k, 'v) ExpiringMap \<Rightarrow> bool" where
  "consistent p s \<longleftrightarrow>
     distinct (map fst (internal_map s)) \<and>
     (\<forall>k i. (k, i) \<in> set (internal_map s) \<longrightarrow> i < length (objects s) \<and> getKey (objects s ! i) = k) \<and>
     (\<forall>i. use_count s i = owners p s i) \<and>
     (\<forall>w. w \<in> set (expired_queue s) \<longrightarrow> w < length (objects s)) \<and>
     distinct (expired_queue s) \<and>
     heap_upto (expire_at s) (length (expired_queue s)) (expired_queue s)"

text \<open>
  During \<^verbatim>\<open>put\<close> the new object is in the map or its reference is not in the queue.
\<close>

definition pin_ok :: "nat option \<Rightarrow> ('k, 'v) ExpiringMap \<Rightarrow> bool" where
  "pin_ok p s \<longleftrightarrow>
     (\<forall>i. p = Some i \<longrightarrow> i < length (objects s) \<and>
        ((getKey (objects s ! i), i) \<in> set (internal_map s) \<or> i \<notin> set (expired_queue s)))"

text \<open>
  Every entry of the store has its reference in the queue.
\<close>

definition stored_in_queue :: "('k, 'v) ExpiringMap \<Rightarrow> bool" where
  "stored_in_queue s \<longleftrightarrow> (\<forall>k i. (k, i) \<in> set (internal_map s) \<longrightarrow> i \<in> set (expired_queue s))"

definition wf_pin :: "nat option \<Rightarrow> ('k, 'v) ExpiringMap \<Rightarrow> bool" where
  "wf_pin p s \<longleftrightarrow> consistent p s \<and> pin_ok p s \<and> stored_in_queue s"

text \<open>
  A pair of the map whose entry expires after \<open>now\<close>.
\<close>

definition unexpired :: "('k, 'v) ExpiringMap \<Rightarrow> int \<Rightarrow> 'k \<times> nat \<Rightarrow> bool" where
  "unexpired s now e \<longleftrightarrow> now < expire_at s (snd e)"

subsection \<open>The order of keys\<close>

text \<open>
  The order in which \<^verbatim>\<open>keys\<close> returns the keys: by the expiry time of the entry of a
  key, then by key. (\<open>entry_expire\<close> is only used for keys that have an entry.)
\<close>

definition entry_expire :: "('k, 'v) ExpiringMap \<Rightarrow> 'k \<Rightarrow> int" where
  "entry_expire s k =
     (case map_of (internal_map s) k of Some i \<Rightarrow> getExpire (objects s ! i) | None \<Rightarrow> 0)"

definition expires_before :: "('k::linorder, 'v) ExpiringMap \<Rightarrow> 'k \<Rightarrow> 'k \<Rightarrow> bool" where
  "expires_before s a b \<longleftrightarrow>
     entry_expire s a < entry_expire s b \<or> (entry_expire s a = entry_expire s b \<and> a < b)"

subsection \<open>Reachable states\<close>

text \<open>
  The states a program can bring a container to: the new container, and what each of the
  seven operations leaves behind when it returns.
\<close>

inductive reachable :: "('k::linorder, 'v::default) ExpiringMap \<Rightarrow> bool" where
  init: "reachable ExpiringMap_init"
| put: "reachable s \<Longrightarrow> put s k v ms now = Inr s' \<Longrightarrow> reachable s'"
| get: "reachable s \<Longrightarrow> get s k now = (v, s') \<Longrightarrow> reachable s'"
| keys: "reachable s \<Longrightarrow> keys s now = Inr (ks, s') \<Longrightarrow> reachable s'"
| left: "reachable s \<Longrightarrow> left s k now = (d, s') \<Longrightarrow> reachable s'"
| erase: "reachable s \<Longrightarrow> erase s k = s' \<Longrightarrow> reachable s'"
| clear: "reachable s \<Longrightarrow> clear s = Inr s' \<Longrightarrow> reachable s'"
| size: "reachable s \<Longrightarrow> size_op s now = Inr (n, s') \<Longrightarrow> reachable s'"

subsection \<open>Example states\<close>

text \<open>
  \<open>one_entry\<close> is the container after \<^verbatim>\<open>put(1, 10, 100)\<close> on a new container with the
  clock at 0. \<open>three_entries\<close> is the container after \<^verbatim>\<open>put(1, 10, 10)\<close>,
  \<^verbatim>\<open>put(2, 20, 20)\<close> and \<^verbatim>\<open>put(3, 30, 30)\<close>, all with the clock at 0, and \<open>two_left\<close>
  what \<^verbatim>\<open>clearExpired\<close> makes of it with the clock at 10.
\<close>

definition one_entry :: "(nat, int) ExpiringMap" where
  "one_entry =
     \<lparr>objects = [\<lparr>getKey = 1, getValue = 10, getExpire = 100\<rparr>],
      use_count = (\<lambda>_. 0)(0 := 1), internal_map = [(1, 0)], expired_queue = [0]\<rparr>"

definition three_entries :: "(nat, int) ExpiringMap" where
  "three_entries =
     \<lparr>objects = [\<lparr>getKey = 1, getValue = 10, getExpire = 10\<rparr>,
                 \<lparr>getKey = 2, getValue = 20, getExpire = 20\<rparr>,
                 \<lparr>getKey = 3, getValue = 30, getExpire = 30\<rparr>],
      use_count = (\<lambda>_. 0)(0 := 1, 1 := 1, 2 := 1),
      internal_map = [(1, 0), (2, 1), (3, 2)], expired_queue = [0, 1, 2]\<rparr>"

definition two_left :: "(nat, int) ExpiringMap" where
  "two_left =
     \<lparr>objects = [\<lparr>getKey = 1, getValue = 10, getExpire = 10\<rparr>,
                 \<lparr>getKey = 2, getValue = 20, getExpire = 20\<rparr>,
                 \<lparr>getKey = 3, getValue = 30, getExpire = 30\<rparr>],
      use_count = (\<lambda>_. 0)(0 := 0, 1 := 1, 2 := 1),
      internal_map = [(2, 1), (3, 2)], expired_queue = [1, 2]\<rparr>"

text \<open>
  \<open>tied_entries\<close>: after \<^verbatim>\<open>put(2, 20, 10)\<close>, \<^verbatim>\<open>put(1, 10, 10)\<close> and \<^verbatim>\<open>put(3, 30, 5)\<close>
  with the clock at 0.
\<close>

definition tied_entries :: "(nat, int) ExpiringMap" where
  "tied_entries =
     \<lparr>objects = [\<lparr>getKey = 2, getValue = 20, getExpire = 10\<rparr>,
                 \<lparr>getKey = 1, getValue = 10, getExpire = 10\<rparr>,
                 \<lparr>getKey = 3, getValue = 30, getExpire = 5\<rparr>],
      use_count = (\<lambda>_. 0)(0 := 1, 1 := 1, 2 := 1),
      internal_map = [(1, 1), (2, 0), (3, 2)], expired_queue = [2, 1, 0]\<rparr>"


section \<open>The heap order of the queue\<close>

text \<open>
  When \<^verbatim>\<open>push_heap\<close> and \<^verbatim>\<open>pop_heap\<close> return a vector, every comparison they made was
  between live entries; the vector is then a heap again and holds the references it held,
  with the new one added or the front one removed.
\<close>

lemma ItemCompare_Inr:
  "ItemCompare s a b = Inr c \<Longrightarrow> c = (expire_at s a > expire_at s b)"
  by (auto simp: ItemCompare_def lock_def expire_at_def split: option.splits if_splits)

lemma hole_up_fill:
  assumes "hole_up E len xs h v" "len \<le> length xs" "h = 0 \<or> E (xs ! ((h - 1) div 2)) \<le> E v"
  shows "heap_upto E len (xs[h := v])"
  unfolding heap_upto_def
proof (intro allI impI)
  fix i assume i: "0 < i \<and> i < len"
  let ?p = "(i - 1) div 2"
  have p: "?p < i" using i by auto
  consider "i = h" | "?p = h" | "i \<noteq> h" "?p \<noteq> h" by blast
  then show "E (xs[h := v] ! ?p) \<le> E (xs[h := v] ! i)"
  proof cases
    case 1
    then show ?thesis using assms i p by auto
  next
    case 2
    then show ?thesis using assms i p by (auto simp: hole_up_def)
  next
    case 3
    then show ?thesis using assms i p by (auto simp: hole_up_def hole_down_def)
  qed
qed

lemma hole_up_step:
  assumes H: "hole_up E len xs h v" and len: "len \<le> length xs" and h: "0 < h"
    and lt: "E (xs ! ((h - 1) div 2)) > E v"
  shows "hole_up E len (xs[h := xs ! ((h - 1) div 2)]) ((h - 1) div 2) v"
proof -
  let ?q = "(h - 1) div 2"
  let ?ys = "xs[h := xs ! ?q]"
  have hl: "h < len" and qh: "?q < h" using H h by (auto simp: hole_up_def hole_down_def)
  have A: "\<And>i. 0 < i \<Longrightarrow> i < len \<Longrightarrow> i \<noteq> h \<Longrightarrow> (i - 1) div 2 \<noteq> h \<Longrightarrow> E (xs ! ((i - 1) div 2)) \<le> E (xs ! i)"
    using H by (auto simp: hole_up_def hole_down_def)
  have B: "\<And>c. 0 < c \<Longrightarrow> c < len \<Longrightarrow> (c - 1) div 2 = h \<Longrightarrow> E (xs ! ?q) \<le> E (xs ! c)"
    using H h by (auto simp: hole_up_def hole_down_def)
  have nth: "\<And>j. j \<noteq> h \<Longrightarrow> ?ys ! j = xs ! j" "?ys ! h = xs ! ?q"
    using hl len by auto
  have a: "E (?ys ! ((i - 1) div 2)) \<le> E (?ys ! i)"
    if "0 < i" "i < len" "i \<noteq> ?q" "(i - 1) div 2 \<noteq> ?q" for i
  proof (cases "(i - 1) div 2 = h")
    case True
    then have "i \<noteq> h" using that by auto
    then show ?thesis using True B [of i] that nth by auto
  next
    case False
    have "i \<noteq> h" using that by auto
    then show ?thesis using False A [of i] that nth by auto
  qed
  have c: "E (?ys ! ((?q - 1) div 2)) \<le> E (?ys ! c)"
    if "0 < c" "c < len" "(c - 1) div 2 = ?q" "0 < ?q" for c
  proof -
    have gh: "(?q - 1) div 2 \<noteq> h" using qh by auto
    have g: "E (xs ! ((?q - 1) div 2)) \<le> E (xs ! ?q)"
      using A [of ?q] that qh hl gh by auto
    show ?thesis
    proof (cases "c = h")
      case True
      then show ?thesis using g gh nth by auto
    next
      case False
      then have "E (xs ! ?q) \<le> E (xs ! c)" using A [of c] that qh by auto
      then show ?thesis using g gh nth False by auto
    qed
  qed
  have b: "E v \<le> E (?ys ! c)" if "0 < c" "c < len" "(c - 1) div 2 = ?q" for c
  proof (cases "c = h")
    case True
    then show ?thesis using lt nth by auto
  next
    case False
    then have "E (xs ! ?q) \<le> E (xs ! c)" using A [of c] that qh by auto
    then show ?thesis using lt nth False by auto
  qed
  have ql: "?q < len" using qh hl by linarith
  show ?thesis
    unfolding hole_up_def hole_down_def
    by (intro conjI allI impI) (use a b c ql in blast)+
qed

lemma push_heap_aux_heap:
  "push_heap_aux s xs h 0 v = Inr ys \<Longrightarrow> hole_up (expire_at s) len xs h v \<Longrightarrow> len \<le> length xs \<Longrightarrow>
   heap_upto (expire_at s) len ys"
proof (induction h arbitrary: xs rule: less_induct)
  case (less h)
  show ?case
  proof (cases "0 < h")
    case False
    then have "ys = xs[h := v]"
      using less.prems(1) push_heap_aux.simps [of s xs h 0 v] by auto
    then show ?thesis
      using False hole_up_fill [OF less.prems(2,3)] by auto
  next
    case True
    let ?q = "(h - 1) div 2"
    from True less.prems(1) obtain c where c: "ItemCompare s (xs ! ?q) v = Inr c"
      by (auto simp: push_heap_aux.simps [of s xs h 0 v] split: sum.splits)
    note cv = ItemCompare_Inr [OF c]
    show ?thesis
    proof (cases c)
      case True
      with \<open>0 < h\<close> c less.prems(1)
      have r: "push_heap_aux s (xs[h := xs ! ?q]) ?q 0 v = Inr ys"
        by (simp add: push_heap_aux.simps [of s xs h 0 v])
      have "hole_up (expire_at s) len (xs[h := xs ! ?q]) ?q v"
        using hole_up_step [OF less.prems(2,3) \<open>0 < h\<close>] cv True by simp
      moreover have "?q < h" using \<open>0 < h\<close> by auto
      ultimately show ?thesis
        using less.IH [OF _ r] less.prems(3) by simp
    next
      case False
      with \<open>0 < h\<close> c less.prems(1) have "ys = xs[h := v]"
        by (simp add: push_heap_aux.simps [of s xs h 0 v])
      then show ?thesis
        using hole_up_fill [OF less.prems(2,3)] cv False by auto
    qed
  qed
qed

lemma hole_down_step:
  assumes D: "hole_down E len xs h" and len: "len \<le> length xs"
    and m: "0 < m" "(m - 1) div 2 = h" "m < len"
    and least: "\<And>c. 0 < c \<Longrightarrow> c < len \<Longrightarrow> (c - 1) div 2 = h \<Longrightarrow> E (xs ! m) \<le> E (xs ! c)"
  shows "hole_down E len (xs[h := xs ! m]) m"
proof -
  let ?ys = "xs[h := xs ! m]"
  have hm: "h < m" using m by auto
  have hl: "h < len" using D by (simp add: hole_down_def)
  have A: "\<And>i. 0 < i \<Longrightarrow> i < len \<Longrightarrow> i \<noteq> h \<Longrightarrow> (i - 1) div 2 \<noteq> h \<Longrightarrow> E (xs ! ((i - 1) div 2)) \<le> E (xs ! i)"
    using D by (auto simp: hole_down_def)
  have C: "\<And>c. 0 < c \<Longrightarrow> c < len \<Longrightarrow> (c - 1) div 2 = h \<Longrightarrow> 0 < h \<Longrightarrow> E (xs ! ((h - 1) div 2)) \<le> E (xs ! c)"
    using D by (auto simp: hole_down_def)
  have nth: "\<And>j. j \<noteq> h \<Longrightarrow> ?ys ! j = xs ! j" "?ys ! h = xs ! m"
    using hl len by auto
  have a: "E (?ys ! ((i - 1) div 2)) \<le> E (?ys ! i)"
    if "0 < i" "i < len" "i \<noteq> m" "(i - 1) div 2 \<noteq> m" for i
  proof -
    consider "i = h" | "i \<noteq> h" "(i - 1) div 2 = h" | "i \<noteq> h" "(i - 1) div 2 \<noteq> h" by blast
    then show ?thesis
    proof cases
      case 1
      then have "(i - 1) div 2 \<noteq> h" using that by auto
      then show ?thesis using 1 C [of m] that m nth by auto
    next
      case 2
      then show ?thesis using least [of i] that nth by auto
    next
      case 3
      then show ?thesis using A [of i] that nth by auto
    qed
  qed
  have c: "E (?ys ! ((m - 1) div 2)) \<le> E (?ys ! c)"
    if "0 < c" "c < len" "(c - 1) div 2 = m" for c
  proof -
    have "c \<noteq> h" using that hm by auto
    then show ?thesis using A [of c] that m hm nth by auto
  qed
  show ?thesis
    unfolding hole_down_def
    by (intro conjI allI impI) (use a c m in blast)+
qed

lemma mset_move_hole:
  assumes "h < length xs" "m < length xs" "m \<noteq> h"
  shows "mset (xs[h := xs ! m, m := v]) = mset (xs[h := v])"
  using assms by (simp add: mset_update nth_list_update)

lemma push_heap_aux_mset:
  "push_heap_aux s xs h t v = Inr ys \<Longrightarrow> h < length xs \<Longrightarrow>
   mset ys = mset (xs[h := v]) \<and> (\<forall>i. h < i \<longrightarrow> ys ! i = xs ! i)"
proof (induction s xs h t v rule: push_heap_aux.induct)
  case (1 s xs h t v)
  let ?q = "(h - 1) div 2"
  show ?case
  proof (cases "t < h \<and> ItemCompare s (xs ! ?q) v = Inr True")
    case True
    then have r: "push_heap_aux s (xs[h := xs ! ?q]) ?q t v = Inr ys"
      using "1.prems"(1) push_heap_aux.simps [of s xs h t v] by auto
    have q: "?q < h" using True by auto
    have "mset ys = mset (xs[h := xs ! ?q, ?q := v]) \<and> (\<forall>i. ?q < i \<longrightarrow> ys ! i = xs[h := xs ! ?q] ! i)"
      using "1.IH" [OF conjunct1 [OF True] conjunct2 [OF True] TrueI r] q "1.prems"(2) by auto
    then show ?thesis
      using mset_move_hole [of h xs ?q v] q "1.prems"(2) by auto
  next
    case False
    then have "ys = xs[h := v]"
      using "1.prems"(1) push_heap_aux.simps [of s xs h t v]
      by (auto split: if_splits sum.splits)
    then show ?thesis by auto
  qed
qed

lemma adjust_heap_loop_props:
  "adjust_heap_loop s xs h len = Inr (ys, j) \<Longrightarrow> hole_down (expire_at s) len xs h \<Longrightarrow>
   len \<le> length xs \<Longrightarrow>
   hole_down (expire_at s) len ys j \<and> \<not> j < (len - 1) div 2 \<and> length ys = length xs \<and>
   mset (ys[j := v]) = mset (xs[h := v]) \<and> (\<forall>i. len \<le> i \<longrightarrow> ys ! i = xs ! i)"
proof (induction s xs h len arbitrary: ys j rule: adjust_heap_loop.induct)
  case (1 s xs h len)
  show ?case
  proof (cases "h < (len - 1) div 2")
    case False
    then have "ys = xs" "j = h"
      using "1.prems"(1) adjust_heap_loop.simps [of s xs h len] by auto
    then show ?thesis using False "1.prems" by auto
  next
    case True
    then obtain c where c: "ItemCompare s (xs ! (2 * (h + 1))) (xs ! (2 * (h + 1) - 1)) = Inr c"
      using "1.prems"(1) adjust_heap_loop.simps [of s xs h len] by (auto split: sum.splits)
    define m where "m = (if c then 2 * (h + 1) - 1 else 2 * (h + 1))"
    have r: "adjust_heap_loop s (xs[h := xs ! m]) m len = Inr (ys, j)"
      using True c "1.prems"(1) adjust_heap_loop.simps [of s xs h len] by (simp add: m_def)
    have ml: "m < len" "m \<noteq> h" "h < len" "0 < m" "(m - 1) div 2 = h"
      using True by (auto simp: m_def)
    have kids: "i = 2 * (h + 1) - 1 \<or> i = 2 * (h + 1)" if "0 < i" "(i - 1) div 2 = h" for i
      using that by auto
    have "expire_at s (xs ! m) \<le> expire_at s (xs ! i)" if "0 < i" "(i - 1) div 2 = h" for i
      using kids [OF that] ItemCompare_Inr [OF c] by (auto simp: m_def)
    then have D: "hole_down (expire_at s) len (xs[h := xs ! m]) m"
      using hole_down_step [OF "1.prems"(2,3) ml(4,5,1)] by blast
    have "hole_down (expire_at s) len ys j \<and> \<not> j < (len - 1) div 2 \<and>
          length ys = length (xs[h := xs ! m]) \<and>
          mset (ys[j := v]) = mset (xs[h := xs ! m, m := v]) \<and>
          (\<forall>i. len \<le> i \<longrightarrow> ys ! i = xs[h := xs ! m] ! i)"
      using "1.IH" [OF True c r [unfolded m_def] D [unfolded m_def]] "1.prems"(3)
      by (simp add: m_def)
    then show ?thesis
      using mset_move_hole [of h xs m v] ml "1.prems"(3) by auto
  qed
qed

lemma heap_upto_root_least:
  "heap_upto E len xs \<Longrightarrow> i < len \<Longrightarrow> E (xs ! 0) \<le> E (xs ! i)"
proof (induction i rule: less_induct)
  case (less i)
  show ?case
  proof (cases "i = 0")
    case False
    then have "E (xs ! ((i - 1) div 2)) \<le> E (xs ! i)" "(i - 1) div 2 < i"
      using less.prems by (auto simp: heap_upto_def)
    then show ?thesis
      using less.IH [of "(i - 1) div 2"] less.prems by force
  qed simp
qed

lemma push_heap_props:
  assumes "push_heap s (xs @ [w]) = Inr ys"
    and "heap_upto (expire_at s) (length xs) xs"
  shows "heap_upto (expire_at s) (Suc (length xs)) ys \<and> mset ys = add_mset w (mset xs) \<and>
         length ys = Suc (length xs)"
proof -
  let ?n = "length xs"
  have r: "push_heap_aux s (xs @ [w]) ?n 0 w = Inr ys"
    using assms(1) by (simp add: push_heap_def)
  have "hole_up (expire_at s) (Suc ?n) (xs @ [w]) ?n w"
    unfolding hole_up_def hole_down_def
  proof (intro conjI allI impI)
    fix i assume "0 < i \<and> i < Suc ?n \<and> i \<noteq> ?n \<and> (i - 1) div 2 \<noteq> ?n"
    then have "0 < i" "i < ?n" "(i - 1) div 2 < ?n" by auto
    then show "expire_at s ((xs @ [w]) ! ((i - 1) div 2)) \<le> expire_at s ((xs @ [w]) ! i)"
      using assms(2) by (simp add: heap_upto_def nth_append)
  qed auto
  then have "heap_upto (expire_at s) (Suc ?n) ys"
    using push_heap_aux_heap [OF r] by simp
  moreover have "mset ys = add_mset w (mset xs)"
    using push_heap_aux_mset [OF r] by simp
  moreover have "length ys = Suc ?n"
    using length_push_heap_aux [OF r] by simp
  ultimately show ?thesis by simp
qed

lemma heap_upto_butlast:
  "heap_upto E len xs \<Longrightarrow> len < length xs \<Longrightarrow> heap_upto E len (butlast xs)"
  by (auto simp: heap_upto_def nth_butlast)

lemma adjust_heap_props:
  assumes r: "adjust_heap s xs 0 len v = Inr ys"
    and D: "hole_down (expire_at s) len xs 0" and len: "len < length xs"
  shows "heap_upto (expire_at s) len ys \<and> mset ys = mset (xs[0 := v]) \<and>
         length ys = length xs \<and> ys ! len = xs ! len"
proof -
  let ?E = "expire_at s"
  from r obtain zs j where l: "adjust_heap_loop s xs 0 len = Inr (zs, j)"
    by (auto simp: adjust_heap_def split: sum.splits)
  have len': "len \<le> length xs" using len by simp
  note P = adjust_heap_loop_props [OF l D len', of v]
  then have Dz: "hole_down ?E len zs j" and stop: "\<not> j < (len - 1) div 2"
    and lz: "length zs = length xs" and mz: "mset (zs[j := v]) = mset (xs[0 := v])"
    and keep: "zs ! len = xs ! len"
    by auto
  have jl: "j < len" using Dz by (simp add: hole_down_def)
  show ?thesis
  proof (cases "even len \<and> 2 \<le> len \<and> j = (len - 2) div 2")
    case True
    let ?m = "2 * (j + 1) - 1"
    have p: "push_heap_aux s (zs[j := zs ! ?m]) ?m 0 v = Inr ys"
      using r l True by (simp add: adjust_heap_def)
    from True obtain k where k: "len = 2 * k" "1 \<le> k" "j = k - 1"
      by (auto elim!: evenE)
    have m: "0 < ?m" "(?m - 1) div 2 = j" "?m < len" "?m = len - 1" "?m \<noteq> j"
      using k by auto
    have only: "c = ?m" if "0 < c" "c < len" "(c - 1) div 2 = j" for c
      using that k by auto
    have "hole_down ?E len (zs[j := zs ! ?m]) ?m"
      using hole_down_step [OF Dz _ m(1,2,3)] only lz len' by auto
    moreover have "\<not> (0 < c \<and> c < len \<and> (c - 1) div 2 = ?m)" for c
      using k by auto
    ultimately have "hole_up ?E len (zs[j := zs ! ?m]) ?m v"
      unfolding hole_up_def by blast
    then have "heap_upto ?E len ys"
      using push_heap_aux_heap [OF p] lz len' by simp
    moreover have "mset ys = mset (zs[j := zs ! ?m, ?m := v]) \<and> ys ! len = (zs[j := zs ! ?m]) ! len"
      using push_heap_aux_mset [OF p] m lz len by auto
    moreover have "mset (zs[j := zs ! ?m, ?m := v]) = mset (zs[j := v])"
      using mset_move_hole [of j zs ?m v] m jl lz len by auto
    moreover have "length ys = length xs"
      using length_push_heap_aux [OF p] lz by simp
    ultimately show ?thesis
      using mz keep jl by auto
  next
    case False
    then have p: "push_heap_aux s zs j 0 v = Inr ys"
      using r l by (auto simp: adjust_heap_def)
    have "\<not> (0 < c \<and> c < len \<and> (c - 1) div 2 = j)" for c
      using False stop by presburger
    then have "hole_up ?E len zs j v"
      using Dz unfolding hole_up_def by blast
    then have "heap_upto ?E len ys"
      using push_heap_aux_heap [OF p] lz len' by simp
    moreover have "mset ys = mset (zs[j := v]) \<and> ys ! len = zs ! len"
      using push_heap_aux_mset [OF p] jl lz len by auto
    moreover have "length ys = length xs"
      using length_push_heap_aux [OF p] lz by simp
    ultimately show ?thesis
      using mz keep by auto
  qed
qed

lemma pop_heap_props:
  assumes r: "pop_heap s xs = Inr ys" and H: "heap_upto (expire_at s) (length xs) xs"
    and ne: "xs \<noteq> []"
  shows "heap_upto (expire_at s) (length xs - 1) (butlast ys) \<and>
         mset (butlast ys) = mset xs - {#xs ! 0#} \<and> length ys = length xs"
proof (cases "length xs > 1")
  case False
  then obtain x where x: "xs = [x]" using ne by (cases xs) auto
  then have "ys = [x]" using r by (simp add: pop_heap_def)
  then show ?thesis unfolding x by (simp add: heap_upto_def)
next
  case True
  let ?n = "length xs"
  let ?xs0 = "xs[?n - 1 := xs ! 0]"
  have a: "adjust_heap s ?xs0 0 (?n - 1) (xs ! (?n - 1)) = Inr ys"
    using r True by (simp add: pop_heap_def)
  have D: "hole_down (expire_at s) (?n - 1) ?xs0 0"
    unfolding hole_down_def
  proof (intro conjI allI impI)
    fix i assume "0 < i \<and> i < ?n - 1 \<and> i \<noteq> 0 \<and> (i - 1) div 2 \<noteq> 0"
    then have "0 < i" "i < ?n - 1" "(i - 1) div 2 < ?n - 1" by auto
    then show "expire_at s (?xs0 ! ((i - 1) div 2)) \<le> expire_at s (?xs0 ! i)"
      using H by (simp add: heap_upto_def)
  qed (use True in auto)
  have P: "heap_upto (expire_at s) (?n - 1) ys" "mset ys = mset (?xs0[0 := xs ! (?n - 1)])"
    "length ys = ?n" "ys ! (?n - 1) = ?xs0 ! (?n - 1)"
    using adjust_heap_props [OF a D] True by auto
  have swap: "mset (?xs0[0 := xs ! (?n - 1)]) = mset xs"
    using True ne mset_swap [of 0 xs "?n - 1"] by simp
  have "ys \<noteq> []" using P(3) True by auto
  then have "mset ys = mset (butlast ys @ [last ys])"
    by simp
  then have "mset ys = add_mset (last ys) (mset (butlast ys))"
    by (simp del: append_butlast_last_id)
  moreover have "last ys = xs ! 0"
    using P(3,4) True \<open>ys \<noteq> []\<close> by (simp add: last_conv_nth)
  ultimately have e: "add_mset (xs ! 0) (mset (butlast ys)) = mset xs"
    using P(2) swap by simp
  have "mset (butlast ys) = mset xs - {#xs ! 0#}"
    unfolding e [symmetric] by simp
  then show ?thesis
    using heap_upto_butlast [OF P(1)] P(3) True by simp
qed

section \<open>The invariant\<close>

text \<open>
  The steps the operations are made of keep the invariant: erasing from the map, popping
  and pushing the queue, one run of the body of \<^verbatim>\<open>clearExpired\<close>, the whole loop, and
  \<^verbatim>\<open>put\<close>, \<^verbatim>\<open>erase\<close>, \<^verbatim>\<open>clear\<close> and \<^verbatim>\<open>size\<close>. A \<^verbatim>\<open>clearExpired\<close> that returns
  leaves in the map exactly the pairs whose entry expires after \<open>now\<close>.
\<close>

lemma map_of_filter_key:
  "map_of (filter (\<lambda>p. fst p \<noteq> k) m) k' = (if k' = k then None else map_of m k')"
  by (induction m) auto

lemma map_erase_fields:
  "objects (map_erase k s) = objects s" "expired_queue (map_erase k s) = expired_queue s"
  "internal_map (map_erase k s) = filter (\<lambda>p. fst p \<noteq> k) (internal_map s)"
  "expire_at (map_erase k s) = expire_at s"
proof -
  have "filter (\<lambda>p. fst p \<noteq> k) m = m" if "map_of m k = None" for m :: "('a \<times> nat) list"
    using that by (induction m) (auto split: if_splits)
  then show "internal_map (map_erase k s) = filter (\<lambda>p. fst p \<noteq> k) (internal_map s)"
    by (auto simp: map_erase_def release_def split: option.splits)
qed (auto simp: map_erase_def release_def expire_at_def fun_eq_iff split: option.splits)

lemma map_erase_use_count:
  "use_count (map_erase k s) i =
     (if map_of (internal_map s) k = Some i then use_count s i - 1 else use_count s i)"
  by (auto simp: map_erase_def release_def split: option.splits)

lemma consistent_map_erase:
  assumes "consistent p s"
  shows "consistent p (map_erase k s)"
proof -
  have d: "distinct (map fst (internal_map s))"
    and key: "\<And>k i. (k, i) \<in> set (internal_map s) \<Longrightarrow> i < length (objects s) \<and> getKey (objects s ! i) = k"
    and cnt: "\<And>i. use_count s i = owners p s i"
    using assms by (auto simp: consistent_def)
  have "use_count (map_erase k s) i = owners p (map_erase k s) i" for i
  proof (cases "map_of (internal_map s) k = Some i")
    case True
    then have "(k, i) \<in> set (internal_map s)" by (simp add: map_of_SomeD)
    then show ?thesis
      using True key [of k i] cnt [of i]
      by (simp add: map_erase_use_count owners_def map_erase_fields)
  next
    case False
    then have "(getKey (objects s ! i), i) \<in> set (internal_map s) \<Longrightarrow> getKey (objects s ! i) \<noteq> k"
      using d by auto
    then show ?thesis
      using False cnt [of i]
      by (auto simp: map_erase_use_count owners_def map_erase_fields)
  qed
  then show ?thesis
    using assms by (auto simp: consistent_def map_erase_fields distinct_map_filter)
qed

lemma stored_map_erase: "stored_in_queue s \<Longrightarrow> stored_in_queue (map_erase k s)"
  by (auto simp: stored_in_queue_def map_erase_fields)

lemma queue_pop_props:
  assumes r: "queue_pop s = Inr s'" and I: "consistent p s" and ne: "expired_queue s \<noteq> []"
  shows "objects s' = objects s \<and> use_count s' = use_count s \<and>
         internal_map s' = internal_map s \<and>
         set (expired_queue s') = set (expired_queue s) - {hd (expired_queue s)} \<and> consistent p s'"
proof -
  let ?q = "expired_queue s"
  from r obtain ys where ys: "pop_heap s ?q = Inr ys" and s': "s' = s\<lparr>expired_queue := butlast ys\<rparr>"
    by (auto simp: queue_pop_def split: sum.splits)
  have H: "heap_upto (expire_at s) (length ?q) ?q" and d: "distinct ?q"
    using I by (auto simp: consistent_def)
  note P = pop_heap_props [OF ys H ne]
  have hd: "?q ! 0 = hd ?q" using ne by (simp add: hd_conv_nth)
  have m: "mset (butlast ys) = mset (remove1 (hd ?q) ?q)" using P hd by simp
  have "distinct (butlast ys)"
    using mset_eq_imp_distinct_iff [OF m] d by simp
  moreover have "set (butlast ys) = set ?q - {hd ?q}"
    using mset_eq_setD [OF m] d by simp
  moreover have "length (butlast ys) = length ?q - 1" using P by simp
  moreover have "expire_at s' = expire_at s" "owners p s' = owners p s"
    by (simp_all add: s' expire_at_def owners_def fun_eq_iff)
  ultimately show ?thesis
    using I P by (auto simp: consistent_def s')
qed

lemma queue_push_props:
  assumes r: "queue_push w s = Inr s'" and I: "consistent p s"
    and w: "w < length (objects s)" "w \<notin> set (expired_queue s)"
  shows "objects s' = objects s \<and> use_count s' = use_count s \<and>
         internal_map s' = internal_map s \<and>
         set (expired_queue s') = insert w (set (expired_queue s)) \<and> consistent p s'"
proof -
  let ?q = "expired_queue s"
  from r obtain ys where ys: "push_heap s (?q @ [w]) = Inr ys" and s': "s' = s\<lparr>expired_queue := ys\<rparr>"
    by (auto simp: queue_push_def split: sum.splits)
  have H: "heap_upto (expire_at s) (length ?q) ?q" and d: "distinct ?q"
    using I by (auto simp: consistent_def)
  note P = push_heap_props [OF ys H]
  have m: "mset ys = mset (w # ?q)" using P by simp
  have "distinct ys"
    using mset_eq_imp_distinct_iff [OF m] d w by simp
  moreover have "set ys = insert w (set ?q)"
    using mset_eq_setD [OF m] by simp
  moreover have "expire_at s' = expire_at s" "owners p s' = owners p s"
    by (simp_all add: s' expire_at_def owners_def fun_eq_iff)
  ultimately show ?thesis
    using I P w by (auto simp: consistent_def s')
qed

lemma clearExpired_body_Break:
  assumes r: "clearExpired_body s now = Inr (Break s')" and I: "consistent p s"
    and S: "stored_in_queue s" and ne: "expired_queue s \<noteq> []"
  shows "s' = s \<and> filter (unexpired s now) (internal_map s) = internal_map s"
proof -
  let ?q = "expired_queue s"
  from r obtain item where l: "lock s (hd ?q) = Some item" and e: "now < getExpire item" and s': "s' = s"
    by (auto simp: clearExpired_body_def split: option.splits if_splits sum.splits)
  have t: "now < expire_at s (?q ! 0)"
    using l e ne by (auto simp: lock_def expire_at_def hd_conv_nth split: if_splits)
  have H: "heap_upto (expire_at s) (length ?q) ?q"
    using I by (simp add: consistent_def)
  have "unexpired s now x" if "x \<in> set (internal_map s)" for x
  proof -
    have "snd x \<in> set ?q" using S that by (cases x) (auto simp: stored_in_queue_def)
    then obtain j where "j < length ?q" "?q ! j = snd x" by (auto simp: in_set_conv_nth)
    then show ?thesis
      using heap_upto_root_least [OF H, of j] t by (auto simp: unexpired_def)
  qed
  then show ?thesis using s' by simp
qed

lemma clearExpired_body_Continue:
  assumes r: "clearExpired_body s now = Inr (Continue s')" and I: "consistent p s"
    and P: "pin_ok p s" and S: "stored_in_queue s" and ne: "expired_queue s \<noteq> []"
  shows "consistent p s' \<and> pin_ok p s' \<and> stored_in_queue s' \<and> objects s' = objects s \<and>
         filter (unexpired s now) (internal_map s') = filter (unexpired s now) (internal_map s)"
proof -
  let ?q = "expired_queue s"
  let ?t = "hd ?q"
  have d: "distinct (map fst (internal_map s))"
    and key: "\<And>k i. (k, i) \<in> set (internal_map s) \<Longrightarrow> i < length (objects s) \<and> getKey (objects s ! i) = k"
    and cnt: "\<And>i. use_count s i = owners p s i"
    using I by (auto simp: consistent_def)
  have tq: "?t \<in> set ?q" using ne by simp
  then have tl: "?t < length (objects s)" using I by (auto simp: consistent_def)
  show ?thesis
  proof (cases "lock s ?t")
    case None
    then have pop: "queue_pop s = Inr s'"
      using r by (auto simp: clearExpired_body_def split: sum.splits)
    note Q = queue_pop_props [OF pop I ne]
    have zero: "owners p s ?t = 0"
      using None tl cnt [of ?t] by (auto simp: lock_def split: if_splits)
    have "stored_in_queue s'"
      unfolding stored_in_queue_def
    proof (intro allI impI)
      fix k i assume "(k, i) \<in> set (internal_map s')"
      then have m: "(k, i) \<in> set (internal_map s)" using Q by simp
      then have "i \<noteq> ?t" using zero key [OF m] by (auto simp: owners_def)
      then show "i \<in> set (expired_queue s')"
        using Q S m by (auto simp: stored_in_queue_def)
    qed
    moreover have "pin_ok p s'"
      using P Q by (auto simp: pin_ok_def)
    ultimately show ?thesis using Q by simp
  next
    case (Some item)
    let ?k = "getKey item"
    have item: "item = objects s ! ?t" and pos: "0 < use_count s ?t"
      using Some by (auto simp: lock_def split: if_splits)
    have old: "\<not> now < expire_at s ?t"
      using r Some item by (auto simp: clearExpired_body_def expire_at_def split: if_splits)
    have pop: "queue_pop (map_erase ?k s) = Inr s'"
      using r Some by (auto simp: clearExpired_body_def split: if_splits sum.splits)
    have I1: "consistent p (map_erase ?k s)" by (rule consistent_map_erase [OF I])
    have ne1: "expired_queue (map_erase ?k s) \<noteq> []" using ne by (simp add: map_erase_fields)
    note Q = queue_pop_props [OF pop I1 ne1, unfolded map_erase_fields]
    have Qo: "objects s' = objects s"
      and Qm: "set (internal_map s') = {x \<in> set (internal_map s). fst x \<noteq> ?k}"
      and Qq: "set (expired_queue s') = set ?q - {?t}"
      using Q by auto
    have "p = Some ?t \<Longrightarrow> (?k, ?t) \<in> set (internal_map s)"
      using P tq item by (auto simp: pin_ok_def)
    then have inm: "(?k, ?t) \<in> set (internal_map s)"
      using pos cnt [of ?t] item by (auto simp: owners_def split: if_splits)
    have uniq: "i = ?t" if "(?k, i) \<in> set (internal_map s)" for i
      using map_of_is_SomeI [OF d inm] map_of_is_SomeI [OF d that] by simp
    have "stored_in_queue s'"
      unfolding stored_in_queue_def
    proof (intro allI impI)
      fix k i assume "(k, i) \<in> set (internal_map s')"
      then have m: "(k, i) \<in> set (internal_map s)" and k: "k \<noteq> ?k" using Qm by auto
      then have "i \<noteq> ?t" using key [OF m] item by auto
      then show "i \<in> set (expired_queue s')"
        using Qq S m by (auto simp: stored_in_queue_def)
    qed
    moreover have "pin_ok p s'"
      unfolding pin_ok_def
    proof (intro allI impI)
      fix i assume i: "p = Some i"
      then have il: "i < length (objects s)"
        and c: "(getKey (objects s ! i), i) \<in> set (internal_map s) \<or> i \<notin> set ?q"
        using P by (auto simp: pin_ok_def)
      have "(getKey (objects s' ! i), i) \<in> set (internal_map s') \<or> i \<notin> set (expired_queue s')"
      proof (cases "i = ?t")
        case True
        then show ?thesis using Qq by simp
      next
        case False
        then have "getKey (objects s ! i) = ?k \<Longrightarrow> (getKey (objects s ! i), i) \<notin> set (internal_map s)"
          using uniq [of i] by auto
        then show ?thesis
          unfolding Qo Qm Qq using c by auto
      qed
      then show "i < length (objects s') \<and>
        ((getKey (objects s' ! i), i) \<in> set (internal_map s') \<or> i \<notin> set (expired_queue s'))"
        using il Qo by simp
    qed
    moreover have "filter (unexpired s now) (internal_map s') = filter (unexpired s now) (internal_map s)"
    proof -
      have *: "fst x \<noteq> ?k \<and> unexpired s now x \<longleftrightarrow> unexpired s now x"
        if "x \<in> set (internal_map s)" for x
      proof -
        obtain a b where x: "x = (a, b)" by (cases x)
        show ?thesis
          using that uniq [of b] old unfolding x by (auto simp: unexpired_def)
      qed
      have "internal_map s' = filter (\<lambda>p. fst p \<noteq> ?k) (internal_map s)"
        using Q by simp
      then have "filter (unexpired s now) (internal_map s') =
          filter (\<lambda>x. fst x \<noteq> ?k \<and> unexpired s now x) (internal_map s)"
        by (simp only: filter_filter)
      also have "\<dots> = filter (unexpired s now) (internal_map s)"
        by (rule filter_cong [OF refl]) (use * in blast)
      finally show ?thesis .
    qed
    ultimately show ?thesis using Q by simp
  qed
qed

lemma unexpired_cong: "objects s' = objects s \<Longrightarrow> unexpired s' now = unexpired s now"
  by (simp add: unexpired_def expire_at_def fun_eq_iff)

lemma clearExpired_props:
  "clearExpired s now = Inr s' \<Longrightarrow> wf_pin p s \<Longrightarrow>
   wf_pin p s' \<and> objects s' = objects s \<and>
   internal_map s' = filter (unexpired s now) (internal_map s)"
proof (induction s now rule: clearExpired.induct)
  case (1 s now)
  note W = "1.prems"(2) [unfolded wf_pin_def]
  show ?case
  proof (cases "expired_queue s = []")
    case True
    then have "internal_map s = []"
      using W by (cases "internal_map s") (auto simp: stored_in_queue_def)
    then show ?thesis
      using True "1.prems" clearExpired.simps [of s now] by simp
  next
    case False
    then obtain r where b: "clearExpired_body s now = Inr r"
      using "1.prems"(1) clearExpired.simps [of s now] by (auto split: sum.splits)
    show ?thesis
    proof (cases r)
      case (Break t)
      then have "s' = t" using False b "1.prems"(1) clearExpired.simps [of s now] by simp
      then show ?thesis
        using clearExpired_body_Break [of s now t p] b Break W False "1.prems"(2) by simp
    next
      case (Continue t)
      then have c: "clearExpired t now = Inr s'"
        using False b "1.prems"(1) clearExpired.simps [of s now] by simp
      have B: "consistent p t" "pin_ok p t" "stored_in_queue t" "objects t = objects s"
        "filter (unexpired s now) (internal_map t) = filter (unexpired s now) (internal_map s)"
        using clearExpired_body_Continue [of s now t p] b Continue W False by simp_all
      then have "wf_pin p t" by (simp add: wf_pin_def)
      then show ?thesis
        using "1.IH" [OF False b Continue c] B unexpired_cong [OF B(4), of now] by simp
    qed
  qed
qed

lemma heap_upto_cong:
  "(\<And>i. i < len \<Longrightarrow> E (xs ! i) = E' (xs ! i)) \<Longrightarrow> heap_upto E len xs = heap_upto E' len xs"
proof -
  assume a: "\<And>i. i < len \<Longrightarrow> E (xs ! i) = E' (xs ! i)"
  have "E (xs ! ((i - 1) div 2)) = E' (xs ! ((i - 1) div 2))" if "0 < i" "i < len" for i
    using that a [of "(i - 1) div 2"] by auto
  then show ?thesis
    using a by (auto simp: heap_upto_def)
qed

text \<open>The state of \<^verbatim>\<open>put\<close> after \<^verbatim>\<open>make_shared\<close>.\<close>

lemma wf_pin_make_shared:
  assumes W: "wf_pin None s"
    and item_def: "item = length (objects s)"
    and s1_def: "s1 = s\<lparr>objects := objects s @ [x], use_count := (use_count s)(item := 1)\<rparr>"
  shows "wf_pin (Some item) s1 \<and> item \<notin> set (expired_queue s1)"
proof -
  have key: "\<And>k i. (k, i) \<in> set (internal_map s) \<Longrightarrow> i < length (objects s) \<and> getKey (objects s ! i) = k"
    and cnt: "\<And>i. use_count s i = owners None s i"
    and q: "\<And>w. w \<in> set (expired_queue s) \<Longrightarrow> w < length (objects s)"
    and H: "heap_upto (expire_at s) (length (expired_queue s)) (expired_queue s)"
    using W by (auto simp: wf_pin_def consistent_def)
  have nq: "item \<notin> set (expired_queue s)" using q [of item] by (auto simp: item_def)
  have "use_count s1 i = owners (Some item) s1 i" for i
  proof (cases "i = item")
    case True
    then show ?thesis using key [of _ item] by (auto simp: owners_def s1_def item_def)
  next
    case False
    have "i < length (objects s) \<Longrightarrow> (objects s @ [x]) ! i = objects s ! i"
      by (simp add: nth_append)
    moreover have "(k, i) \<in> set (internal_map s) \<Longrightarrow> i < length (objects s)" for k
      using key by blast
    ultimately show ?thesis
      using False cnt [of i] by (auto simp: owners_def s1_def item_def)
  qed
  moreover have "heap_upto (expire_at s1) (length (expired_queue s)) (expired_queue s)"
  proof -
    have "expire_at s1 (expired_queue s ! i) = expire_at s (expired_queue s ! i)"
      if "i < length (expired_queue s)" for i
      using q [of "expired_queue s ! i"] that by (simp add: expire_at_def s1_def nth_append)
    then show ?thesis using H heap_upto_cong [of "length (expired_queue s)" "expire_at s1"] by blast
  qed
  moreover have "(k, i) \<in> set (internal_map s) \<Longrightarrow>
      i < Suc (length (objects s)) \<and> getKey ((objects s @ [x]) ! i) = k" for k i
    using key [of k i] by (simp add: nth_append)
  moreover have "w \<in> set (expired_queue s) \<Longrightarrow> w < Suc (length (objects s))" for w
    using q [of w] by simp
  ultimately have "consistent (Some item) s1"
    using W by (simp add: wf_pin_def consistent_def s1_def)
  moreover have "pin_ok (Some item) s1"
    using nq by (simp add: pin_ok_def s1_def item_def)
  moreover have "stored_in_queue s1"
    using W by (simp add: wf_pin_def stored_in_queue_def s1_def)
  ultimately show ?thesis using nq by (simp add: wf_pin_def s1_def)
qed

lemma wf_pin_map_erase:
  assumes "wf_pin p s" and "\<And>i. p = Some i \<Longrightarrow> i \<notin> set (expired_queue s)"
  shows "wf_pin p (map_erase k s)"
  using assms consistent_map_erase [of p s k] stored_map_erase [of s k]
  by (auto simp: wf_pin_def pin_ok_def map_erase_fields)

lemma map_emplace_props:
  assumes I: "consistent (Some item) s" and none: "map_of (internal_map s) key = None"
    and item: "item < length (objects s)" "getKey (objects s ! item) = key"
  shows "consistent (Some item) (map_emplace key item s) \<and> pin_ok (Some item) (map_emplace key item s) \<and>
         objects (map_emplace key item s) = objects s \<and>
         expired_queue (map_emplace key item s) = expired_queue s \<and>
         internal_map (map_emplace key item s) = insort_key fst (key, item) (internal_map s)"
proof -
  let ?s = "map_emplace key item s"
  have e: "?s = acquire item (s\<lparr>internal_map := insort_key fst (key, item) (internal_map s)\<rparr>)"
    using none by (simp add: map_emplace_def)
  have f: "objects ?s = objects s" "expired_queue ?s = expired_queue s"
    "internal_map ?s = insort_key fst (key, item) (internal_map s)"
    "use_count ?s = (use_count s)(item := use_count s item + 1)" "expire_at ?s = expire_at s"
    by (simp_all add: e acquire_def expire_at_def fun_eq_iff)
  have key: "\<And>k i. (k, i) \<in> set (internal_map s) \<Longrightarrow> i < length (objects s) \<and> getKey (objects s ! i) = k"
    and cnt: "\<And>i. use_count s i = owners (Some item) s i"
    using I by (auto simp: consistent_def)
  have fresh: "key \<notin> fst ` set (internal_map s)"
    using none by (simp add: map_of_eq_None_iff)
  then have notin: "(key, item) \<notin> set (internal_map s)" by force
  have "use_count ?s i = owners (Some item) ?s i" for i
    using cnt [of i] notin item by (auto simp: f owners_def set_insort_key)
  then have c: "\<forall>i. use_count ?s i = owners (Some item) ?s i" by blast
  have d: "distinct (map fst (insort_key fst (key, item) (internal_map s)))"
    using I fresh by (simp add: distinct_insort_key consistent_def)
  have "consistent (Some item) ?s"
    unfolding consistent_def using I item c d by (auto simp: consistent_def f(1,2,3,5) set_insort_key)
  moreover have "pin_ok (Some item) ?s"
    using item by (simp add: pin_ok_def f set_insort_key)
  ultimately show ?thesis by (simp add: f)
qed

lemma put_props:
  assumes r: "put s key val ms now = Inr s'" and W: "wf_pin None s"
  shows "wf_pin None s' \<and>
         objects s' = objects s @ [\<lparr>getKey = key, getValue = val, getExpire = now + ms\<rparr>] \<and>
         internal_map s' =
           filter (unexpired s' now)
             (insort_key fst (key, length (objects s)) (filter (\<lambda>p. fst p \<noteq> key) (internal_map s)))"
proof -
  let ?x = "\<lparr>getKey = key, getValue = val, getExpire = now + ms\<rparr>"
  define item where "item = length (objects s)"
  define s1 where "s1 = s\<lparr>objects := objects s @ [?x], use_count := (use_count s)(item := 1)\<rparr>"
  define s2 where "s2 = map_erase key s1"
  define s3 where "s3 = map_emplace key item s2"
  from r obtain s4 s5 where s4: "queue_push item s3 = Inr s4"
    and s5: "clearExpired s4 now = Inr s5" and s': "s' = release item s5"
    by (auto simp: put_def Let_def s3_def s2_def s1_def item_def split: sum.splits)
  have W1: "wf_pin (Some item) s1" and nq1: "item \<notin> set (expired_queue s1)"
    using wf_pin_make_shared [OF W item_def s1_def] by simp_all
  have o1: "objects s1 = objects s @ [?x]" "internal_map s1 = internal_map s"
    by (simp_all add: s1_def)
  have W2: "wf_pin (Some item) s2"
    unfolding s2_def using wf_pin_map_erase [OF W1] nq1 by simp
  have f2: "objects s2 = objects s1" "expired_queue s2 = expired_queue s1"
    "internal_map s2 = filter (\<lambda>p. fst p \<noteq> key) (internal_map s1)"
    by (simp_all add: s2_def map_erase_fields)
  have none: "map_of (internal_map s2) key = None"
    by (simp add: f2 map_of_filter_key)
  have it: "item < length (objects s2)" "getKey (objects s2 ! item) = key"
    by (simp_all add: f2 o1 item_def)
  have I2: "consistent (Some item) s2" and S2: "stored_in_queue s2"
    using W2 by (simp_all add: wf_pin_def)
  note E = map_emplace_props [OF I2 none it, folded s3_def]
  then have I3: "consistent (Some item) s3" and P3: "pin_ok (Some item) s3"
    and f3: "objects s3 = objects s2" "expired_queue s3 = expired_queue s2"
      "internal_map s3 = insort_key fst (key, item) (internal_map s2)"
    by simp_all
  have it3: "item < length (objects s3)" "item \<notin> set (expired_queue s3)"
    using it nq1 by (simp_all add: f3 f2)
  note Q = queue_push_props [OF s4 I3 it3]
  then have f4: "objects s4 = objects s3" "internal_map s4 = internal_map s3"
    "set (expired_queue s4) = insert item (set (expired_queue s3))" and I4: "consistent (Some item) s4"
    by simp_all
  have "(getKey (objects s3 ! item), item) \<in> set (internal_map s3)"
    using it by (simp add: f3 set_insort_key)
  then have "pin_ok (Some item) s4"
    using it3 by (simp add: pin_ok_def f4)
  moreover have "stored_in_queue s4"
    using S2 by (auto simp: stored_in_queue_def f4 f3 set_insort_key)
  ultimately have W4: "wf_pin (Some item) s4"
    using I4 by (simp add: wf_pin_def)
  note C = clearExpired_props [OF s5 W4]
  then have W5: "wf_pin (Some item) s5" and f5: "objects s5 = objects s4"
    "internal_map s5 = filter (unexpired s4 now) (internal_map s4)"
    by simp_all
  have f': "objects s' = objects s5" "internal_map s' = internal_map s5"
    "expired_queue s' = expired_queue s5" "expire_at s' = expire_at s5"
    "use_count s' = (use_count s5)(item := use_count s5 item - 1)"
    by (simp_all add: s' release_def expire_at_def fun_eq_iff)
  have "use_count s' i = owners None s' i" for i
    using W5 by (auto simp: wf_pin_def consistent_def f' owners_def)
  then have c: "\<forall>i. use_count s' i = owners None s' i" by blast
  have "consistent None s'"
    unfolding consistent_def using W5 c by (simp add: wf_pin_def consistent_def f'(1,2,3,4))
  moreover have "stored_in_queue s'"
    using W5 by (simp add: wf_pin_def stored_in_queue_def f')
  ultimately have "wf_pin None s'"
    by (simp add: wf_pin_def pin_ok_def)
  moreover have "objects s' = objects s @ [?x]"
    by (simp add: f' f5 f4 f3 f2 o1)
  moreover have "unexpired s' now = unexpired s4 now"
    by (rule unexpired_cong) (simp add: f' f5)
  ultimately show ?thesis
    by (simp add: f' f5 f4 f3 f2 o1 item_def)
qed

lemma wf_pin_init: "wf_pin None ExpiringMap_init"
  by (simp add: wf_pin_def consistent_def pin_ok_def stored_in_queue_def owners_def heap_upto_def
      ExpiringMap_init_def)

lemma wf_pin_erase: "wf_pin None s \<Longrightarrow> wf_pin None (erase s k)"
  unfolding erase_def by (rule wf_pin_map_erase) simp_all

lemma clear_queue_props:
  "clear_queue s = Inr s' \<Longrightarrow> consistent p s \<Longrightarrow>
   consistent p s' \<and> expired_queue s' = [] \<and> objects s' = objects s \<and>
   use_count s' = use_count s \<and> internal_map s' = internal_map s"
proof (induction s rule: clear_queue.induct)
  case (1 s)
  show ?case
  proof (cases "expired_queue s = []")
    case True
    then show ?thesis using "1.prems" clear_queue.simps [of s] by simp
  next
    case False
    then obtain t where t: "queue_pop s = Inr t" and c: "clear_queue t = Inr s'"
      using "1.prems"(1) clear_queue.simps [of s] by (auto split: sum.splits)
    note Q = queue_pop_props [OF t "1.prems"(2) False]
    then show ?thesis
      using "1.IH" [OF False t c] by simp
  qed
qed

lemma use_count_fold_release:
  "use_count (fold (\<lambda>p. release (snd p)) m s) i = use_count s i - count_list (map snd m) i"
  by (induction m arbitrary: s) (auto simp: release_def)

lemma fold_release_fields:
  "objects (fold (\<lambda>p. release (snd p)) m s) = objects s"
  "expired_queue (fold (\<lambda>p. release (snd p)) m s) = expired_queue s"
  by (induction m arbitrary: s) (auto simp: release_def)

lemma clear_props:
  assumes r: "clear s = Inr s'" and W: "wf_pin None s"
  shows "wf_pin None s' \<and> internal_map s' = [] \<and> expired_queue s' = [] \<and> objects s' = objects s"
proof -
  from r obtain t where t: "clear_queue s = Inr t" and s': "s' = map_clear t"
    by (auto simp: clear_def split: sum.splits)
  have I: "consistent None s" using W by (simp add: wf_pin_def)
  note C = clear_queue_props [OF t I]
  have f: "internal_map s' = []" "expired_queue s' = []" "objects s' = objects s"
    using C by (simp_all add: s' map_clear_def fold_release_fields)
  have "use_count s' i = 0" for i
  proof -
    have "consistent None t" using C by simp
    then have "use_count t i = owners None t i" unfolding consistent_def by blast
    moreover have "0 < count_list (map snd (internal_map t)) i"
      if "(getKey (objects t ! i), i) \<in> set (internal_map t)"
    proof -
      have "i \<in> set (map snd (internal_map t))" using that by force
      then show ?thesis by (simp add: count_list_0_iff zero_less_iff_neq_zero)
    qed
    ultimately show ?thesis
      by (auto simp: s' map_clear_def use_count_fold_release owners_def)
  qed
  then show ?thesis
    by (simp add: wf_pin_def consistent_def pin_ok_def stored_in_queue_def owners_def heap_upto_def f)
qed

lemma size_props:
  assumes r: "size_op s now = Inr (n, s')" and W: "wf_pin None s"
  shows "wf_pin None s' \<and> objects s' = objects s \<and>
         internal_map s' = filter (unexpired s now) (internal_map s) \<and>
         n = length (filter (unexpired s now) (internal_map s))"
proof -
  from r have c: "clearExpired s now = Inr s'" and n: "n = length (internal_map s')"
    by (auto simp: size_op_def split: sum.splits)
  show ?thesis
    using clearExpired_props [OF c W] n by simp
qed

section \<open>keys\<close>

text \<open>
  The sort returns when every comparison it makes returns, and its result is the sorted
  arrangement of its input. On the keys of the map the comparison of \<^verbatim>\<open>keys\<close> always
  returns and is the order \<open>expires_before\<close>.
\<close>

lemma sort_insert_props:
  assumes "\<And>y. y \<in> set ys \<Longrightarrow> lt x y = Inr (R x y)"
    and "sorted_wrt R ys"
    and "\<And>y. y \<in> set ys \<Longrightarrow> \<not> R x y \<Longrightarrow> R y x"
    and tr: "\<And>a b c. R a b \<Longrightarrow> R b c \<Longrightarrow> R a c"
  shows "\<exists>zs. sort_insert lt x ys = Inr zs \<and> mset zs = add_mset x (mset ys) \<and> sorted_wrt R zs"
  using assms(1-3)
proof (induction ys)
  case Nil
  then show ?case by simp
next
  case (Cons y ys)
  have c: "lt x y = Inr (R x y)" using Cons.prems(1) by simp
  show ?case
  proof (cases "R x y")
    case True
    then have "R x z" if "z \<in> set ys" for z
      using that Cons.prems(2) tr [of x y z] by auto
    then show ?thesis using True c Cons.prems(2) by auto
  next
    case False
    then have yx: "R y x" using Cons.prems(3) by simp
    obtain zs where zs: "sort_insert lt x ys = Inr zs" "mset zs = add_mset x (mset ys)"
      "sorted_wrt R zs"
      using Cons.IH Cons.prems by auto
    have "set zs = insert x (set ys)" using mset_eq_setD [of zs "x # ys"] zs(2) by simp
    then have "\<forall>z \<in> set zs. R y z" using yx Cons.prems(2) by auto
    then show ?thesis using False c zs by auto
  qed
qed

lemma std_sort_props:
  assumes "\<And>a b. a \<in> set xs \<Longrightarrow> b \<in> set xs \<Longrightarrow> lt a b = Inr (R a b)"
    and "distinct xs"
    and "\<And>a b. a \<in> set xs \<Longrightarrow> b \<in> set xs \<Longrightarrow> a \<noteq> b \<Longrightarrow> \<not> R a b \<Longrightarrow> R b a"
    and tr: "\<And>a b c. R a b \<Longrightarrow> R b c \<Longrightarrow> R a c"
  shows "\<exists>zs. std_sort lt xs = Inr zs \<and> mset zs = mset xs \<and> sorted_wrt R zs"
  using assms(1-3)
proof (induction xs)
  case Nil
  then show ?case by simp
next
  case (Cons x xs)
  have "\<exists>ys. std_sort lt xs = Inr ys \<and> mset ys = mset xs \<and> sorted_wrt R ys"
  proof (rule Cons.IH)
    show "distinct xs" using Cons.prems(2) by simp
  qed (use Cons.prems(1,3) in simp_all)
  then obtain ys where ys: "std_sort lt xs = Inr ys" "mset ys = mset xs" "sorted_wrt R ys"
    by blast
  have s: "set ys = set xs" using mset_eq_setD [OF ys(2)] .
  have "\<exists>zs. sort_insert lt x ys = Inr zs \<and> mset zs = add_mset x (mset ys) \<and> sorted_wrt R zs"
  proof (rule sort_insert_props [OF _ ys(3) _ tr])
    fix y assume "y \<in> set ys"
    then show "lt x y = Inr (R x y)" using Cons.prems(1) s by simp
  next
    fix y assume "y \<in> set ys" "\<not> R x y"
    then have "y \<in> set xs" "x \<noteq> y" using Cons.prems(2) s by auto
    then show "R y x" using Cons.prems(3) [of x y] \<open>\<not> R x y\<close> by simp
  qed
  then show ?case using ys by auto
qed

lemma expires_before_trans:
  "expires_before s a b \<Longrightarrow> expires_before s b c \<Longrightarrow> expires_before s a c"
  by (auto simp: expires_before_def)

lemma keys_less_present:
  assumes "map_of (internal_map s) a = Some i" "map_of (internal_map s) b = Some j"
  shows "keys_less s a b = Inr (expires_before s a b)"
  using assms by (auto simp: keys_less_def expires_before_def entry_expire_def)

lemma keys_props:
  assumes d: "distinct (map fst (internal_map s))"
  shows "\<exists>ks. keys s now = Inr (ks, s) \<and>
           mset ks = mset (map fst (filter (unexpired s now) (internal_map s))) \<and>
           sorted_wrt (expires_before s) ks"
proof -
  let ?xs = "map fst (filter (unexpired s now) (internal_map s))"
  have f: "filter (\<lambda>a. getExpire (objects s ! snd a) > now) (internal_map s) =
      filter (unexpired s now) (internal_map s)"
    by (rule filter_cong) (simp_all add: unexpired_def expire_at_def)
  have dx: "distinct ?xs" using d by (simp add: distinct_map_filter)
  have pres: "\<exists>i. map_of (internal_map s) a = Some i" if "a \<in> set ?xs" for a
  proof -
    from that obtain i where "(a, i) \<in> set (internal_map s)" by auto
    then show ?thesis using d by auto
  qed
  have "\<exists>zs. std_sort (keys_less s) ?xs = Inr zs \<and> mset zs = mset ?xs \<and>
      sorted_wrt (expires_before s) zs"
  proof (rule std_sort_props [OF _ dx _ expires_before_trans])
    fix a b assume "a \<in> set ?xs" "b \<in> set ?xs"
    then show "keys_less s a b = Inr (expires_before s a b)"
      using pres [of a] pres [of b] keys_less_present [of s a _ b] by blast
  next
    fix a b :: 'a assume "a \<noteq> b" "\<not> expires_before s a b"
    then show "expires_before s b a" by (auto simp: expires_before_def)
  qed
  then show ?thesis by (auto simp: keys_def f)
qed

section \<open>The invariant holds in every reachable state\<close>

text \<open>
  \<^verbatim>\<open>get\<close>, \<^verbatim>\<open>left\<close> and \<^verbatim>\<open>keys\<close> give back the state they were called on.
\<close>

lemma get_state: "get s k now = (v, s') \<Longrightarrow> s' = s"
  by (auto simp: get_def split: option.splits if_splits)

lemma left_state: "left s k now = (d, s') \<Longrightarrow> s' = s"
  by (auto simp: left_def split: option.splits)

lemma keys_state: "keys s now = Inr (ks, s') \<Longrightarrow> s' = s"
  by (auto simp: keys_def split: sum.splits)

lemma reachable_wf: "reachable s \<Longrightarrow> wf_pin None s"
proof (induction rule: reachable.induct)
  case init
  show ?case by (rule wf_pin_init)
next
  case (put s k v ms now s')
  then show ?case using put_props [of s k v ms now s'] by simp
next
  case (get s k now v s')
  then show ?case using get_state [of s k now v s'] by simp
next
  case (keys s now ks s')
  then show ?case using keys_state [of s now ks s'] by simp
next
  case (left s k now d s')
  then show ?case using left_state [of s k now d s'] by simp
next
  case (erase s k s')
  then show ?case using wf_pin_erase [of s k] by auto
next
  case (clear s s')
  then show ?case using clear_props [of s s'] by simp
next
  case (size s now n s')
  then show ?case using size_props [of s now n s'] by simp
qed

lemma wf_map_of:
  "wf_pin p s \<Longrightarrow> map_of (internal_map s) k = Some i \<longleftrightarrow> (k, i) \<in> set (internal_map s)"
  by (simp add: wf_pin_def consistent_def)

lemma keys_live:
  assumes W: "wf_pin p s"
  shows "\<exists>ks. keys s now = Inr (ks, s) \<and> distinct ks \<and>
           set ks = {k. \<exists>i. map_of (internal_map s) k = Some i \<and> now < getExpire (objects s ! i)} \<and>
           length ks = length (filter (unexpired s now) (internal_map s)) \<and>
           sorted_wrt (expires_before s) ks"
proof -
  have d: "distinct (map fst (internal_map s))" using W by (simp add: wf_pin_def consistent_def)
  from keys_props [OF d, of now] obtain ks where ks: "keys s now = Inr (ks, s)"
    "mset ks = mset (map fst (filter (unexpired s now) (internal_map s)))"
    "sorted_wrt (expires_before s) ks"
    by blast
  have "distinct (map fst (filter (unexpired s now) (internal_map s)))"
    using d by (simp add: distinct_map_filter)
  then have "distinct ks" using mset_eq_imp_distinct_iff [OF ks(2)] by simp
  moreover have "set ks = {k. \<exists>i. map_of (internal_map s) k = Some i \<and> now < getExpire (objects s ! i)}"
  proof -
    have "set ks = fst ` {e \<in> set (internal_map s). unexpired s now e}"
      using mset_eq_setD [OF ks(2)] by simp
    also have "\<dots> = {k. \<exists>i. (k, i) \<in> set (internal_map s) \<and> now < getExpire (objects s ! i)}"
      by (auto simp: unexpired_def expire_at_def image_iff)
    finally show ?thesis
      by (simp only: wf_map_of [OF W])
  qed
  moreover have "length ks = length (filter (unexpired s now) (internal_map s))"
    using mset_eq_length [OF ks(2)] by simp
  ultimately show ?thesis using ks by blast
qed

section \<open>What the operations leave behind\<close>

text \<open>
  Consequences of the invariant for \<^verbatim>\<open>put\<close>, \<^verbatim>\<open>size\<close> and the loop of \<^verbatim>\<open>clearExpired\<close>.
\<close>

lemma clearExpired_fuel_enough:
  "length (expired_queue s) \<le> n \<Longrightarrow> clearExpired_fuel n s now = Some (clearExpired s now)"
proof (induction n arbitrary: s)
  case 0
  then show ?case by (simp add: clearExpired.simps [of s now])
next
  case (Suc n)
  show ?case
  proof (cases "expired_queue s = []")
    case True
    then show ?thesis by (simp add: clearExpired.simps [of s now])
  next
    case False
    have "clearExpired_fuel n s' now = Some (clearExpired s' now)"
      if "clearExpired_body s now = Inr (Continue s')" for s'
      using clearExpired_body_shrinks [OF that] Suc.prems by (intro Suc.IH) simp
    then show ?thesis
      using False by (simp add: clearExpired.simps [of s now] split: sum.splits loop.splits)
  qed
qed

lemma store_injective:
  assumes "wf_pin p s"
  shows "length (internal_map s) \<le> length (expired_queue s)"
proof -
  let ?m = "internal_map s"
  have key: "\<And>k i. (k, i) \<in> set ?m \<Longrightarrow> getKey (objects s ! i) = k"
    and d: "distinct (map fst ?m)"
    and st: "\<And>k i. (k, i) \<in> set ?m \<Longrightarrow> i \<in> set (expired_queue s)"
    using assms by (auto simp: wf_pin_def consistent_def stored_in_queue_def)
  have "inj_on snd (set ?m)"
  proof (rule inj_onI)
    fix x y assume a: "x \<in> set ?m" "y \<in> set ?m" "snd x = snd y"
    obtain k i where x: "x = (k, i)" by (cases x)
    obtain l j where y: "y = (l, j)" by (cases y)
    show "x = y" using a key [of k i] key [of l j] unfolding x y by simp
  qed
  moreover have "distinct ?m" using d by (simp add: distinct_map)
  ultimately have "distinct (map snd ?m)" by (simp add: distinct_map)
  then have "length ?m = card (set (map snd ?m))" using distinct_card [of "map snd ?m"] by simp
  also have "\<dots> \<le> card (set (expired_queue s))"
    by (rule card_mono) (use st in auto)
  also have "\<dots> \<le> length (expired_queue s)" by (rule card_length)
  finally show ?thesis .
qed

lemma size_counts_live:
  assumes "reachable s" and "size_op s now = Inr (n, s')"
  shows "\<exists>ks ks'. keys s now = Inr (ks, s) \<and> keys s' now = Inr (ks', s') \<and>
           n = length ks \<and> n = length ks' \<and> set ks' = set ks"
proof -
  note W = reachable_wf [OF assms(1)]
  note S = size_props [OF assms(2) W]
  then have W': "wf_pin None s'" and o: "objects s' = objects s"
    and m: "internal_map s' = filter (unexpired s now) (internal_map s)"
    and n: "n = length (filter (unexpired s now) (internal_map s))"
    by blast+
  obtain ks where ks: "keys s now = Inr (ks, s)"
    "length ks = length (filter (unexpired s now) (internal_map s))"
    "set ks = {k. \<exists>i. map_of (internal_map s) k = Some i \<and> now < getExpire (objects s ! i)}"
    using keys_live [OF W, of now] by blast
  obtain ks' where ks': "keys s' now = Inr (ks', s')"
    "length ks' = length (filter (unexpired s' now) (internal_map s'))"
    "set ks' = {k. \<exists>i. map_of (internal_map s') k = Some i \<and> now < getExpire (objects s' ! i)}"
    using keys_live [OF W', of now] by blast
  have "length ks' = n"
    using ks'(2) n by (simp add: m unexpired_cong [OF o])
  moreover have "set ks' = set ks"
    unfolding ks(3) ks'(3) wf_map_of [OF W] wf_map_of [OF W']
    by (auto simp: m o unexpired_def expire_at_def)
  ultimately show ?thesis using ks ks' n by auto
qed

section \<open>The example states are reached\<close>

text \<open>
  The example states are what the calls named with them return, and the further calls
  used below return what is said here.
\<close>

lemmas run_simps =
  put_def Let_def map_erase_def map_emplace_def queue_push_def push_heap_def
  push_heap_aux.simps clearExpired.simps clearExpired_body_def lock_def queue_pop_def
  pop_heap_def adjust_heap_def adjust_heap_loop.simps release_def acquire_def
  ItemCompare_def ExpiringMap_init_def erase_def size_op_def

lemma put_init_one_entry: "put ExpiringMap_init 1 10 100 0 = Inr one_entry"
  by (simp add: run_simps one_entry_def)

lemma put_three_entries:
  "put ExpiringMap_init 1 10 10 0 = Inr s1 \<and> put s1 2 20 20 0 = Inr s2 \<and>
   put s2 3 30 30 0 = Inr three_entries"
  if "s1 = \<lparr>objects = [\<lparr>getKey = 1, getValue = 10, getExpire = 10\<rparr>],
               use_count = (\<lambda>_. 0)(0 := 1), internal_map = [(1, 0)], expired_queue = [0]\<rparr>"
    and "s2 = \<lparr>objects = [\<lparr>getKey = 1, getValue = 10, getExpire = 10\<rparr>,
                           \<lparr>getKey = 2, getValue = 20, getExpire = 20\<rparr>],
               use_count = (\<lambda>_. 0)(0 := 1, 1 := 1),
               internal_map = [(1, 0), (2, 1)], expired_queue = [0, 1]\<rparr>"
  unfolding that by (simp add: run_simps three_entries_def numeral_2_eq_2)


lemma reachable_one_entry: "reachable one_entry"
  using reachable.put [OF reachable.init put_init_one_entry] .

lemma reachable_three_entries: "reachable three_entries"
proof -
  note P = put_three_entries [OF refl refl]
  note a = reachable.put [OF reachable.init conjunct1 [OF P]]
  note b = reachable.put [OF a conjunct1 [OF conjunct2 [OF P]]]
  show ?thesis
    by (rule reachable.put [OF b conjunct2 [OF conjunct2 [OF P]]])
qed

lemma reachable_tied_entries: "reachable tied_entries"
proof -
  let ?s1 = "\<lparr>objects = [\<lparr>getKey = 2, getValue = 20, getExpire = 10\<rparr>],
               use_count = (\<lambda>_. 0)(0 := 1), internal_map = [(2, 0)], expired_queue = [0]\<rparr>
             :: (nat, int) ExpiringMap"
  let ?s2 = "\<lparr>objects = [\<lparr>getKey = 2, getValue = 20, getExpire = 10\<rparr>,
                           \<lparr>getKey = 1, getValue = 10, getExpire = 10\<rparr>],
               use_count = (\<lambda>_. 0)(0 := 1, 1 := 1),
               internal_map = [(1, 1), (2, 0)], expired_queue = [0, 1]\<rparr>
             :: (nat, int) ExpiringMap"
  have 1: "put ExpiringMap_init 2 20 10 0 = Inr ?s1"
    by (simp add: run_simps)
  have 2: "put ?s1 1 10 10 0 = Inr ?s2"
    by (simp add: run_simps)
  have 3: "put ?s2 3 30 5 0 = Inr tied_entries"
    by (simp add: run_simps tied_entries_def numeral_2_eq_2)
  show ?thesis
    by (rule reachable.put [OF reachable.put [OF reachable.put [OF reachable.init 1] 2] 3])
qed

lemma keys_tied: "keys tied_entries 0 = Inr ([3, 1, 2], tied_entries)"
  by (simp add: keys_def keys_less_def tied_entries_def)

lemma body_three_entries: "clearExpired_body three_entries 10 = Inr (Continue two_left)"
  by (simp add: run_simps three_entries_def two_left_def fun_eq_iff)

lemma body_two_left: "clearExpired_body two_left 10 = Inr (Break two_left)"
  by (simp add: run_simps two_left_def)

lemma clearExpired_three_entries: "clearExpired three_entries 10 = Inr two_left"
proof -
  have "expired_queue three_entries \<noteq> []" "expired_queue two_left \<noteq> []"
    by (simp_all add: three_entries_def two_left_def)
  then show ?thesis
    by (simp add: clearExpired.simps [of three_entries 10] clearExpired.simps [of two_left 10]
        body_three_entries body_two_left)
qed



section \<open>The claims\<close>

subsection \<open>left\<close>

lemma left_present:
  "map_of (internal_map s) k = Some i \<Longrightarrow>
   left s k now = ((getExpire (objects s ! i) - now) mod 2 ^ 32, s)"
  by (simp add: left_def)

lemma left_absent: "map_of (internal_map s) k = None \<Longrightarrow> left s k now = (0, s)"
  by (simp add: left_def)

text \<open>
  C1. For a key with an entry, \<^verbatim>\<open>left\<close> should give \<open>expire_at - now()\<close>, a number that
  is not positive once the entry has expired. The code stores the difference in an
  \<^verbatim>\<open>unsigned int\<close>: for the entry of \<open>one_entry\<close>, which expires at 100, \<^verbatim>\<open>left(1)\<close> with
  the clock at 105 is \<open>2 ^ 32 - 5\<close>, not \<open>-5\<close>.
\<close>

theorem left_expired_entry_wraps: "left one_entry 1 105 = (4294967291, one_entry)"
  by (simp add: left_def one_entry_def)

subsection \<open>A stale reference in the queue\<close>

text \<open>
  C2. A reference in the queue whose entry was erased should be detected wherever it is
  resolved. \<^verbatim>\<open>clearExpired\<close> tests the pointer that \<^verbatim>\<open>lock()\<close> gives, \<^verbatim>\<open>ItemCompare\<close> does
  not: after \<^verbatim>\<open>erase(1)\<close> on \<open>one_entry\<close> the queue holds one stale reference, and the
  \<^verbatim>\<open>push\<close> of \<^verbatim>\<open>put(2, 20, 100)\<close> compares the new entry with it and dereferences null.
\<close>

theorem put_after_erase_null_deref: "put (erase one_entry 1) 2 20 100 0 = Inl NullDeref"
  by (simp add: run_simps one_entry_def)

subsection \<open>get\<close>

text \<open>
  C3. For a key whose entry is still in the store and has \<open>expire_at \<le> now\<close>, \<^verbatim>\<open>get\<close>
  gives what it gives for a key \<open>k'\<close> that has no entry: the default value of the value
  type, and the state is the one it was called on.
\<close>

theorem get_expired_as_absent:
  assumes "map_of (internal_map s) k = Some i"
    and "getExpire (objects s ! i) \<le> now"
    and "map_of (internal_map s) k' = None"
  shows "get s k now = (default, s) \<and> get s k' now = (default, s)"
  using assms by (simp add: get_def)

theorem get_expired_as_absent_witness:
  "map_of (internal_map one_entry) 1 = Some 0 \<and> getExpire (objects one_entry ! 0) \<le> 100 \<and>
   map_of (internal_map one_entry) 2 = None \<and>
   get one_entry 1 100 = (default, one_entry) \<and> get one_entry 2 100 = (default, one_entry)"
proof -
  have a: "map_of (internal_map one_entry) 1 = Some 0"
    and b: "getExpire (objects one_entry ! 0) \<le> 100"
    and c: "map_of (internal_map one_entry) 2 = None"
    by (simp_all add: one_entry_def)
  show ?thesis
    using a b c get_expired_as_absent [OF a b c] by simp
qed

subsection \<open>keys\<close>

text \<open>
  C4. In every reachable state \<^verbatim>\<open>keys()\<close> returns, without changing the state, a vector
  without repetitions that holds exactly the keys whose entry has \<open>expire_at > now\<close>, in
  ascending order of expiry time and, where these are equal, of key.
\<close>

theorem keys_live_sorted:
  assumes "reachable s"
  shows "\<exists>ks. keys s now = Inr (ks, s) \<and> distinct ks \<and>
           set ks = {k. \<exists>i. map_of (internal_map s) k = Some i \<and> now < getExpire (objects s ! i)} \<and>
           sorted_wrt (expires_before s) ks"
  using keys_live [OF reachable_wf [OF assms], of now] by blast

theorem keys_live_sorted_witness:
  "reachable tied_entries \<and> keys tied_entries 0 = Inr ([3, 1, 2], tied_entries) \<and>
   sorted_wrt (expires_before tied_entries) [3, 1, 2] \<and>
   set [3, 1, 2] =
     {k. \<exists>i. map_of (internal_map tied_entries) k = Some i \<and>
          0 < getExpire (objects tied_entries ! i)}"
proof -
  obtain ks where "keys tied_entries 0 = Inr (ks, tied_entries)"
    and p: "set ks = {k. \<exists>i. map_of (internal_map tied_entries) k = Some i \<and>
              0 < getExpire (objects tied_entries ! i)}"
      "sorted_wrt (expires_before tied_entries) ks"
    using keys_live_sorted [OF reachable_tied_entries, of 0] by blast
  then have "ks = [3, 1, 2]" by (simp add: keys_tied)
  then show ?thesis
    using p reachable_tied_entries keys_tied by simp
qed

subsection \<open>size\<close>

text \<open>
  C5. \<^verbatim>\<open>size()\<close> should reconcile and return the number of live entries. With the clock
  at 15, \<open>three_entries\<close> after \<^verbatim>\<open>erase(2)\<close> has one live entry (key 3), but
  \<^verbatim>\<open>clearExpired\<close> pops the expired entry of key 1 and \<^verbatim>\<open>pop_heap\<close> then compares the two
  references that are left, one of them stale: \<^verbatim>\<open>ItemCompare\<close> dereferences null. (When
  \<^verbatim>\<open>size()\<close> does return, its result is the length of \<^verbatim>\<open>keys()\<close>: \<open>size_counts_live\<close>.)
\<close>

theorem size_after_erase_null_deref: "size_op (erase three_entries 2) 15 = Inl NullDeref"
  by (simp add: run_simps three_entries_def)

subsection \<open>put twice\<close>

text \<open>
  C6. \<^verbatim>\<open>put(k, v1, t1)\<close> and then \<^verbatim>\<open>put(k, v2, t2)\<close> should leave one live entry for \<open>k\<close>,
  with the value \<open>v2\<close>. On \<open>one_entry\<close>, the container after \<^verbatim>\<open>put(1, 10, 100)\<close>, the call
  \<^verbatim>\<open>put(1, 20, 100)\<close> at the same clock reading does not return: \<^verbatim>\<open>ItemCompare\<close>
  dereferences the null pointer that the stale reference of the first entry locks to.
\<close>

theorem put_overwrite_null_deref: "put one_entry 1 20 100 0 = Inl NullDeref"
  by (simp add: run_simps one_entry_def)

subsection \<open>erase\<close>

text \<open>
  C7. \<^verbatim>\<open>erase(key)\<close> removes the entry of \<open>key\<close> from the store and is the identity when
  there is none; it has no failure value. The queue and the objects are as before, every
  other key has the entry it had, and only the erased object loses an owner.
\<close>

theorem erase_frame:
  "expired_queue (erase s k) = expired_queue s \<and> objects (erase s k) = objects s \<and>
   map_of (internal_map (erase s k)) k = None \<and>
   (\<forall>k'. k' \<noteq> k \<longrightarrow> map_of (internal_map (erase s k)) k' = map_of (internal_map s) k') \<and>
   (\<forall>j. map_of (internal_map s) k \<noteq> Some j \<longrightarrow> use_count (erase s k) j = use_count s j) \<and>
   (map_of (internal_map s) k = None \<longrightarrow> erase s k = s)"
  by (auto simp: erase_def map_erase_def release_def map_of_filter_key split: option.splits)

theorem erase_frame_witness:
  "expired_queue (erase three_entries 2) = [0, 1, 2] \<and>
   map_of (internal_map (erase three_entries 2)) 2 = None \<and>
   map_of (internal_map (erase three_entries 2)) 3 = Some 2 \<and>
   use_count (erase three_entries 2) 2 = 1 \<and>
   erase three_entries 4 = three_entries"
proof -
  have "map_of (internal_map three_entries) 4 = None" "(3::nat) \<noteq> 2"
    "map_of (internal_map three_entries) 2 \<noteq> Some 2"
    "map_of (internal_map three_entries) 3 = Some 2" "use_count three_entries 2 = 1"
    "expired_queue three_entries = [0, 1, 2]"
    by (simp_all add: three_entries_def)
  then show ?thesis
    using erase_frame [of three_entries 2] erase_frame [of three_entries 4] by simp
qed

subsection \<open>clearExpired\<close>

text \<open>
  C8. The loop of \<^verbatim>\<open>clearExpired\<close> comes to an end: allowed to run its body as many times
  as the queue has references on entry, it is left with the result of \<^verbatim>\<open>clearExpired\<close>
  (a state, or the null dereference). Every run of the body that does not leave the loop
  makes the queue one reference shorter.
\<close>

theorem clearExpired_terminates:
  "clearExpired_fuel (length (expired_queue s)) s now = Some (clearExpired s now) \<and>
   (\<forall>s'. expired_queue s \<noteq> [] \<longrightarrow> clearExpired_body s now = Inr (Continue s') \<longrightarrow>
      Suc (length (expired_queue s')) = length (expired_queue s))"
proof -
  have "Suc (length (expired_queue s')) = length (expired_queue s)"
    if "expired_queue s \<noteq> []" "clearExpired_body s now = Inr (Continue s')" for s'
    using clearExpired_body_shrinks [OF that(2)] that(1) by (cases "expired_queue s") simp_all
  then show ?thesis
    using clearExpired_fuel_enough [of s "length (expired_queue s)" now] by blast
qed

theorem clearExpired_terminates_witness:
  "expired_queue three_entries \<noteq> [] \<and>
   clearExpired_body three_entries 10 = Inr (Continue two_left) \<and>
   Suc (length (expired_queue two_left)) = length (expired_queue three_entries) \<and>
   clearExpired_fuel (length (expired_queue three_entries)) three_entries 10 = Some (Inr two_left)"
proof -
  have ne: "expired_queue three_entries \<noteq> []" by (simp add: three_entries_def)
  show ?thesis
    using clearExpired_terminates [of three_entries 10] ne body_three_entries
      clearExpired_three_entries by simp
qed

subsection \<open>The store and the queue\<close>

text \<open>
  C9. In every reachable state, that is after any sequence of \<^verbatim>\<open>put\<close>, \<^verbatim>\<open>get\<close>,
  \<^verbatim>\<open>keys\<close>, \<^verbatim>\<open>left\<close>, \<^verbatim>\<open>erase\<close>, \<^verbatim>\<open>clear\<close> and \<^verbatim>\<open>size\<close> on a new container, every
  entry of the store has its reference in the queue, and the queue has at least as many
  references as the store has entries.
\<close>

theorem store_within_queue:
  assumes "reachable s"
  shows "(\<forall>k i. map_of (internal_map s) k = Some i \<longrightarrow> i \<in> set (expired_queue s)) \<and>
         length (internal_map s) \<le> length (expired_queue s)"
proof -
  note W = reachable_wf [OF assms]
  then have "stored_in_queue s" by (simp add: wf_pin_def)
  then show ?thesis
    using store_injective [OF W] by (auto simp: stored_in_queue_def dest: map_of_SomeD)
qed

theorem store_within_queue_witness:
  "reachable (erase three_entries 2) \<and>
   map_of (internal_map (erase three_entries 2)) 3 = Some 2 \<and>
   2 \<in> set (expired_queue (erase three_entries 2)) \<and>
   length (internal_map (erase three_entries 2)) = 2 \<and>
   length (expired_queue (erase three_entries 2)) = 3"
proof -
  have r: "reachable (erase three_entries 2)"
    by (rule reachable.erase [OF reachable_three_entries refl])
  have m: "map_of (internal_map (erase three_entries 2)) 3 = Some 2"
    by (simp add: erase_def map_erase_def release_def three_entries_def)
  have "2 \<in> set (expired_queue (erase three_entries 2))"
    using store_within_queue [OF r] m by blast
  then show ?thesis
    using r m by (simp add: erase_def map_erase_def release_def three_entries_def)
qed

subsection \<open>The expiry boundary\<close>



end
